theory Spec2Isabelle
  imports Main
begin

section \<open>Python strings\<close>

text \<open>
  A Python \<open>str\<close> is modelled as a \<open>string\<close>, one \<open>char\<close> per code point, so the model
  covers the texts whose code points are below 256. The functions of this section are the
  \<open>str\<close> methods that \<^verbatim>\<open>Handwrite.py\<close> calls.
\<close>

abbreviation NL :: char where
  "NL \<equiv> CHR 0x0A"

definition isspace :: "char \<Rightarrow> bool" where
  \<comment> \<open>the code points below 256 that \<open>str.split()\<close> and \<open>str.strip()\<close> treat as whitespace\<close>
  "isspace c \<longleftrightarrow>
     c \<in> {CHR 0x09, CHR 0x0A, CHR 0x0B, CHR 0x0C, CHR 0x0D, CHR 0x1C, CHR 0x1D, CHR 0x1E,
          CHR 0x1F, CHR 0x20, CHR 0x85, CHR 0xA0}"

fun split_on :: "char \<Rightarrow> string \<Rightarrow> string list" where
  \<comment> \<open>\<open>s.split(sep)\<close> for a separator of one character\<close>
  "split_on sep [] = [[]]"
| "split_on sep (c # cs) =
     (if c = sep then [] # split_on sep cs
      else (case split_on sep cs of [] \<Rightarrow> [[c]] | l # ls \<Rightarrow> (c # l) # ls))"

fun split_acc :: "string \<Rightarrow> string \<Rightarrow> string list" where
  \<comment> \<open>the scan of \<open>s.split()\<close>; the first argument is the word read so far\<close>
  "split_acc w [] = (if w = [] then [] else [w])"
| "split_acc w (c # cs) =
     (if isspace c then (if w = [] then split_acc [] cs else w # split_acc [] cs)
      else split_acc (w @ [c]) cs)"

definition split_ws :: "string \<Rightarrow> string list" where
  \<comment> \<open>\<open>s.split()\<close>: the whitespace-delimited words, none of them empty\<close>
  "split_ws s = split_acc [] s"

definition strip :: "string \<Rightarrow> string" where
  \<comment> \<open>\<open>s.strip()\<close>\<close>
  "strip s = rev (dropWhile isspace (rev (dropWhile isspace s)))"

definition startswith :: "string \<Rightarrow> string \<Rightarrow> bool" where
  \<comment> \<open>\<open>s.startswith(p)\<close>\<close>
  "startswith s p \<longleftrightarrow> take (length p) s = p"

definition endswith :: "string \<Rightarrow> string \<Rightarrow> bool" where
  \<comment> \<open>\<open>s.endswith(p)\<close>\<close>
  "endswith s p \<longleftrightarrow> length p \<le> length s \<and> drop (length s - length p) s = p"

fun join :: "string \<Rightarrow> string list \<Rightarrow> string" where
  \<comment> \<open>\<open>sep.join(xs)\<close>\<close>
  "join sep [] = []"
| "join sep [x] = x"
| "join sep (x # y # ys) = x @ sep @ join sep (y # ys)"

definition is_word :: "string \<Rightarrow> bool" where
  \<comment> \<open>a word: not empty and free of whitespace\<close>
  "is_word w \<longleftrightarrow> w \<noteq> [] \<and> (\<forall>c\<in>set w. \<not> isspace c)"


section \<open>Fonts and the line measurer\<close>

text \<open>
  A font handle is what \<open>ImageFont.truetype(font_path, font_size)\<close> returns; the code reads
  its \<open>size\<close> only. \<open>load_font\<close> returns \<open>None\<close> when the file cannot be read, so a handle
  in the code is a \<open>font option\<close>.

  The metrics of the rendering engine are not part of the repository:
  \<open>draw.textbbox((0, 0), s, font=f)\<close> is a parameter \<open>m\<close> of every function that measures,
  giving the box \<open>(left, top, right, bottom)\<close>, in whole pixels. The code only subtracts, adds
  and compares these numbers.
\<close>

record font =
  font_path :: string
  font_size :: int

type_synonym bbox = "int \<times> int \<times> int \<times> int"

type_synonym textbbox = "font option \<Rightarrow> string \<Rightarrow> bbox"

definition bbox_width :: "bbox \<Rightarrow> int" where
  \<comment> \<open>\<open>bbox[2] - bbox[0]\<close>\<close>
  "bbox_width b = (case b of (l, t, r, bt) \<Rightarrow> r - l)"

definition bbox_height :: "bbox \<Rightarrow> int" where
  \<comment> \<open>\<open>bbox[3] - bbox[1]\<close>\<close>
  "bbox_height b = (case b of (l, t, r, bt) \<Rightarrow> bt - t)"

definition font_not_found :: string where
  "font_not_found = ''Font file not found. Please check the path.''"

definition load_font :: "(string \<Rightarrow> bool) \<Rightarrow> string \<Rightarrow> int \<Rightarrow> font option \<times> string list" where
  \<comment> \<open>\<open>avail p\<close>: the file \<open>p\<close> is a font that \<open>ImageFont.truetype\<close> can read. The second
      component is the list of messages shown with \<open>st.error\<close>.\<close>
  "load_font avail path sz =
     (if avail path then (Some \<lparr>font_path = path, font_size = sz\<rparr>, [])
      else (None, [font_not_found]))"


section \<open>The fit checker\<close>

fun fits_from :: "textbbox \<Rightarrow> font option \<Rightarrow> int \<Rightarrow> int \<Rightarrow> int \<Rightarrow> string list \<Rightarrow> bool" where
  \<comment> \<open>the loop of \<open>text_fits_on_page\<close>, from the running height \<open>current_height\<close>\<close>
  "fits_from m font max_width max_height current_height [] = True"
| "fits_from m font max_width max_height current_height (line # rest) =
     (let bbox = m font line;
          width = bbox_width bbox;
          height = bbox_height bbox
      in if width > max_width \<or> current_height + height > max_height then False
         else fits_from m font max_width max_height (current_height + height + 8) rest)"

definition text_fits_on_page :: "textbbox \<Rightarrow> string \<Rightarrow> font option \<Rightarrow> int \<Rightarrow> int \<Rightarrow> bool" where
  "text_fits_on_page m text font max_width max_height =
     fits_from m font max_width max_height 0 (split_on NL text)"


section \<open>The word wrapper\<close>

text \<open>
  The state of the loops of \<open>split_text_into_lines\<close> is the pair \<open>(lines, current_line)\<close>.
  \<open>current_line\<close> is not reset when a paragraph ends: only the heading branch and an
  overflow replace it.
\<close>

definition wrap_word ::
  "textbbox \<Rightarrow> font option \<Rightarrow> int \<Rightarrow> string \<Rightarrow> string list \<times> string list \<Rightarrow> string list \<times> string list" where
  \<comment> \<open>the body of \<open>for word in line.split()\<close>\<close>
  "wrap_word m font max_width word st =
     (case st of (lines, current_line) \<Rightarrow>
        (let current_line1 = current_line @ [word];
             line_text = join '' '' current_line1
         in if bbox_width (m font line_text) > max_width
            then (lines @ [join '' '' (butlast current_line1)], [word])
            else (lines, current_line1)))"

definition wrap_paragraph ::
  "textbbox \<Rightarrow> font option \<Rightarrow> int \<Rightarrow> string \<Rightarrow> string list \<times> string list \<Rightarrow> string list \<times> string list" where
  \<comment> \<open>the body of \<open>for line in text.split('\n')\<close>\<close>
  "wrap_paragraph m font max_width line st =
     (case st of (lines, current_line) \<Rightarrow>
        if strip line = [] then (lines @ [[]], current_line)
        else if startswith line ''## '' then
          (if current_line \<noteq> [] then (lines @ [join '' '' current_line] @ [drop 3 line], [])
           else (lines @ [drop 3 line], current_line))
        else
          (case fold (wrap_word m font max_width) (split_ws line) (lines, current_line) of
             (lines1, current_line1) \<Rightarrow>
               if current_line1 \<noteq> [] then (lines1 @ [join '' '' current_line1], current_line1)
               else (lines1, current_line1)))"

definition split_text_into_lines :: "textbbox \<Rightarrow> string \<Rightarrow> int \<Rightarrow> font option \<Rightarrow> string" where
  "split_text_into_lines m text max_width font =
     join [NL] (fst (fold (wrap_paragraph m font max_width) (split_on NL text) ([], [])))"


section \<open>The font-size adapter\<close>

function adjust_from ::
  "(string \<Rightarrow> bool) \<Rightarrow> textbbox \<Rightarrow> string \<Rightarrow> string \<Rightarrow> int \<Rightarrow> int \<Rightarrow> int
    \<Rightarrow> (string \<times> font option) \<times> string list" where
  \<comment> \<open>the \<open>while font_size > 10\<close> loop of \<open>adjust_font_size\<close>, entered with \<open>font_size\<close>\<close>
  "adjust_from avail m text path max_width max_height fs =
     (if fs > 10 then
        (case load_font avail path fs of
           (font, errs) \<Rightarrow>
             (let formatted_text = split_text_into_lines m text (max_width - 200) font
              in if text_fits_on_page m formatted_text font (max_width - 200) (max_height - 200)
                 then ((formatted_text, font), errs)
                 else (case adjust_from avail m text path max_width max_height (fs - 1) of
                         (r, errs') \<Rightarrow> (r, errs @ errs'))))
      else (([], None), []))"
  by pat_completeness auto
termination
  by (relation "measure (\<lambda>(avail, m, text, path, mw, mh, fs). nat fs)") auto

declare adjust_from.simps [simp del]

definition adjust_font_size ::
  "(string \<Rightarrow> bool) \<Rightarrow> textbbox \<Rightarrow> string \<Rightarrow> string \<Rightarrow> int \<Rightarrow> int
    \<Rightarrow> (string \<times> font option) \<times> string list" where
  "adjust_font_size avail m text path max_width max_height =
     adjust_from avail m text path max_width max_height 60"

definition fits_at ::
  "(string \<Rightarrow> bool) \<Rightarrow> textbbox \<Rightarrow> string \<Rightarrow> string \<Rightarrow> int \<Rightarrow> int \<Rightarrow> int \<Rightarrow> bool" where
  \<comment> \<open>the test of one iteration of the adapter: the text wrapped at size \<open>fs\<close> fits\<close>
  "fits_at avail m text path max_width max_height fs =
     (let font = fst (load_font avail path fs)
      in text_fits_on_page m (split_text_into_lines m text (max_width - 200) font) font
           (max_width - 200) (max_height - 200))"


section \<open>The line renderer\<close>

text \<open>
  The image is the list of the calls \<open>draw.text(xy, text, font=, fill=)\<close> made on it, in
  order. Python sets are objects: a store maps the address of each set to its elements, and
  \<open>drawn_lines.add(line)\<close> updates the store at the address that \<open>drawn_lines\<close> holds.
  The default value \<open>set()\<close> of a parameter is created once, when the \<open>def\<close> is executed;
  the two defaults of the module live at two fixed addresses.
\<close>

record draw_call =
  dc_xy :: "int \<times> int"
  dc_text :: string
  dc_font :: font
  dc_fill :: string

type_synonym addr = nat

type_synonym store = "addr \<Rightarrow> string set"

definition draw_text_default :: addr where
  \<comment> \<open>the default of \<open>previous_lines\<close> in \<open>draw_text\<close>\<close>
  "draw_text_default = 0"

definition text_to_handwriting_default :: addr where
  \<comment> \<open>the default of \<open>previous_texts\<close> in \<open>text_to_handwriting\<close>\<close>
  "text_to_handwriting_default = 1"

record render_state =
  canvas :: "draw_call list"
  cur_y :: int
  last_was_heading :: bool
  previous_line :: string
  sets :: store

definition draw_line ::
  "int \<Rightarrow> font \<Rightarrow> font \<Rightarrow> string \<Rightarrow> addr \<Rightarrow> string \<Rightarrow> render_state \<Rightarrow> render_state" where
  \<comment> \<open>the body of \<open>for line in lines\<close>; \<open>drawn_lines\<close> is the address of the set\<close>
  "draw_line x heading_font font font_color drawn_lines line st =
     (if strip line = [] then st\<lparr>cur_y := cur_y st + (font_size font + 8)\<rparr>
      else if line \<in> sets st drawn_lines then st
      else if startswith line ''## '' then
        st\<lparr>canvas := canvas st @
              [\<lparr>dc_xy = (x, cur_y st), dc_text = drop 3 line, dc_font = heading_font,
                dc_fill = font_color\<rparr>],
           cur_y := cur_y st + (font_size heading_font + 12),
           last_was_heading := True,
           sets := (sets st)(drawn_lines := insert line (sets st drawn_lines)),
           previous_line := line\<rparr>
      else if strip (previous_line st) = strip line then st
      else if startswith line ''**'' \<and> endswith line ''**'' then
        st\<lparr>canvas := canvas st @
              [\<lparr>dc_xy = (x, cur_y st), dc_text = drop 2 (take (length line - 2) line),
                dc_font = font, dc_fill = font_color\<rparr>],
           cur_y := cur_y st + (font_size font + 8),
           last_was_heading := False,
           sets := (sets st)(drawn_lines := insert line (sets st drawn_lines)),
           previous_line := line\<rparr>
      else
        st\<lparr>canvas := canvas st @
              [\<lparr>dc_xy = (x, cur_y st), dc_text = line, dc_font = font, dc_fill = font_color\<rparr>],
           cur_y := cur_y st + (font_size font + 8),
           sets := (sets st)(drawn_lines := insert line (sets st drawn_lines)),
           previous_line := line\<rparr>)"

definition render_lines ::
  "int \<Rightarrow> font \<Rightarrow> font \<Rightarrow> string \<Rightarrow> addr \<Rightarrow> string list \<Rightarrow> render_state \<Rightarrow> render_state" where
  \<comment> \<open>the \<open>for\<close> loop of \<open>draw_text\<close> over \<open>lines\<close>\<close>
  "render_lines x heading_font font font_color drawn_lines lines st =
     fold (draw_line x heading_font font font_color drawn_lines) lines st"

definition render_init :: "store \<Rightarrow> draw_call list \<Rightarrow> int \<Rightarrow> render_state" where
  \<comment> \<open>the locals of \<open>draw_text\<close> before its loop\<close>
  "render_init h cv y0 =
     \<lparr>canvas = cv, cur_y = y0, last_was_heading = False, previous_line = [], sets = h\<rparr>"

definition draw_text ::
  "store \<Rightarrow> draw_call list \<Rightarrow> string \<Rightarrow> int \<Rightarrow> int \<Rightarrow> font \<Rightarrow> font \<Rightarrow> string \<Rightarrow> addr option
    \<Rightarrow> (int \<times> addr) \<times> draw_call list \<times> store" where
  \<comment> \<open>\<open>h\<close> is the store and \<open>cv\<close> the image before the call; \<open>previous_lines = None\<close> is
      the call that omits the argument. The result is the returned pair \<open>(y, drawn_lines)\<close>,
      the image and the store after the call.\<close>
  "draw_text h cv formatted_text x y0 heading_font font font_color previous_lines =
     (let lines = split_on NL formatted_text;
          drawn_lines = (case previous_lines of None \<Rightarrow> draw_text_default | Some a \<Rightarrow> a);
          st = render_lines x heading_font font font_color drawn_lines lines (render_init h cv y0)
      in ((cur_y st, drawn_lines), canvas st, sets st))"


section \<open>The page composer\<close>

definition could_not_format :: string where
  "could_not_format = ''Could not format the text to fit the page.''"

record outcome =
  returned :: "(string \<times> addr) option"
  st_errors :: "string list"
  saved :: "(string \<times> draw_call list) option"
  store_after :: store

definition text_to_handwriting ::
  "(string \<Rightarrow> bool) \<Rightarrow> textbbox \<Rightarrow> store \<Rightarrow> string \<Rightarrow> string \<Rightarrow> string \<Rightarrow> string \<Rightarrow> addr option
    \<Rightarrow> outcome" where
  \<comment> \<open>\<open>returned = None\<close> is \<open>return None\<close>; \<open>saved\<close> is the file written by \<open>img.save\<close>,
      with the image as its list of draw calls on the white 2000 x 3000 page\<close>
  "text_to_handwriting avail m h text path output_path font_color previous_texts =
     (let a4_size = (2000 :: int, 3000 :: int);
          prev = (case previous_texts of None \<Rightarrow> text_to_handwriting_default | Some a \<Rightarrow> a)
      in case load_font avail path 120 of
           (heading_font, e1) \<Rightarrow>
             (case load_font avail path 100 of
                (font0, e2) \<Rightarrow>
                  (case (heading_font, font0) of
                     (Some hf, Some f0) \<Rightarrow>
                       (case adjust_font_size avail m text path (fst a4_size) (snd a4_size) of
                          ((formatted_text, font), e3) \<Rightarrow>
                            (case font of
                               Some f \<Rightarrow>
                                 if formatted_text = [] then
                                   \<lparr>returned = None, st_errors = e1 @ e2 @ e3 @ [could_not_format],
                                    saved = None, store_after = h\<rparr>
                                 else
                                   (case draw_text h [] formatted_text 100 100 hf f font_color
                                           (Some prev) of
                                      ((y1, drawn_lines), cv, h') \<Rightarrow>
                                        \<lparr>returned = Some (output_path, drawn_lines),
                                         st_errors = e1 @ e2 @ e3,
                                         saved = Some (output_path, cv), store_after = h'\<rparr>)
                             | None \<Rightarrow>
                                 \<lparr>returned = None, st_errors = e1 @ e2 @ e3 @ [could_not_format],
                                  saved = None, store_after = h\<rparr>))
                   | _ \<Rightarrow> \<lparr>returned = None, st_errors = e1 @ e2, saved = None, store_after = h\<rparr>)))"


section \<open>The convert button of the shell\<close>

definition please_enter_text :: string where
  "please_enter_text = ''Please enter text or upload a text file.''"

datatype shell_result =
  Rejected string
  | TypeError "string list"
  | Converted string "string list"

definition convert_button ::
  "(string \<Rightarrow> bool) \<Rightarrow> textbbox \<Rightarrow> store \<Rightarrow> addr \<Rightarrow> string \<Rightarrow> string \<Rightarrow> string \<Rightarrow> shell_result" where
  \<comment> \<open>the branch under \<open>st.sidebar.button\<close>; \<open>previous_texts = set()\<close> is a new set at the
      address \<open>a\<close>. Unpacking the \<open>None\<close> that the composer returns on failure raises
      \<open>TypeError\<close>; the messages shown before it are kept.\<close>
  "convert_button avail m h a user_text selected_font_path font_color =
     (if user_text \<noteq> [] then
        (let r = text_to_handwriting avail m (h(a := {})) user_text selected_font_path
                   ''handwriting_output.jpg'' font_color (Some a)
         in case returned r of
              None \<Rightarrow> TypeError (st_errors r)
            | Some (output_image_path, drawn_lines) \<Rightarrow> Converted output_image_path (st_errors r))
      else Rejected please_enter_text)"

definition too_many_words :: string where
  "too_many_words = ''Please enter no more than 1000 words.''"

definition shell_run ::
  "(string \<Rightarrow> bool) \<Rightarrow> textbbox \<Rightarrow> store \<Rightarrow> addr \<Rightarrow> string \<Rightarrow> string \<Rightarrow> string \<Rightarrow> bool
    \<Rightarrow> shell_result option" where
  \<comment> \<open>one run of the script with the text \<open>user_text\<close>; \<open>button\<close>: the convert button was
      pressed. \<open>None\<close>: the run shows nothing about a conversion.\<close>
  "shell_run avail m h a user_text selected_font_path font_color button =
     (if user_text \<noteq> [] \<and> length (split_ws user_text) > 1000 then Some (Rejected too_many_words)
      else if button then
        Some (convert_button avail m h a user_text selected_font_path font_color)
      else None)"


section \<open>A fixed-pitch metric\<close>

definition fixed_pitch :: "int \<Rightarrow> textbbox" where
  \<comment> \<open>a face whose glyphs are \<open>k\<close> times the font size wide and the font size tall; the
      default face of the engine, used when the handle is \<open>None\<close>, has size 10\<close>
  "fixed_pitch k font s =
     (let sz = (case font of None \<Rightarrow> 10 | Some f \<Rightarrow> font_size f)
      in if s = [] then (0, 0, 0, 0) else (0, 0, k * sz * int (length s), sz))"


section \<open>Properties of the fit checker\<close>

lemma fits_from_mono:
  "fits_from m font w h c ls \<Longrightarrow> h \<le> h' \<Longrightarrow> fits_from m font w h' c ls"
proof (induction ls arbitrary: c)
  case Nil
  show ?case by simp
next
  case (Cons l ls)
  from Cons.prems(1) have ok: "\<not> (bbox_width (m font l) > w \<or> c + bbox_height (m font l) > h)"
    and rest: "fits_from m font w h (c + bbox_height (m font l) + 8) ls"
    by (auto simp: Let_def split: if_splits)
  from rest Cons.prems(2) have "fits_from m font w h' (c + bbox_height (m font l) + 8) ls"
    by (rule Cons.IH)
  with ok Cons.prems(2) show ?case by (auto simp: Let_def)
qed


section \<open>Properties of the string operations\<close>

lemma isspace_NL [simp]: "isspace NL"
  by (simp add: isspace_def)

lemma isspace_blank [simp]: "isspace (CHR '' '')"
  by (simp add: isspace_def)

lemma split_on_no_sep: "sep \<notin> set s \<Longrightarrow> split_on sep s = [s]"
  by (induction s) auto

lemma split_acc_nospace:
  "\<forall>c\<in>set u. \<not> isspace c \<Longrightarrow> split_acc w (u @ r) = split_acc (w @ u) r"
  by (induction u arbitrary: w) auto

lemma split_acc_sep:
  "isspace c \<Longrightarrow> split_acc w (a @ c # b) = split_acc w a @ split_acc [] b"
  by (induction a arbitrary: w) auto

lemma split_ws_sep: "isspace c \<Longrightarrow> split_ws (a @ c # b) = split_ws a @ split_ws b"
  by (simp add: split_ws_def split_acc_sep)

lemma split_ws_word: "is_word w \<Longrightarrow> split_ws w = [w]"
  using split_acc_nospace [of w "[]" "[]"] by (simp add: split_ws_def is_word_def)

lemma split_ws_Nil [simp]: "split_ws [] = []"
  by (simp add: split_ws_def)

lemma split_ws_join_blank:
  "\<forall>w\<in>set ws. is_word w \<Longrightarrow> split_ws (join '' '' ws) = ws"
proof (induction "'' ''" ws rule: join.induct)
  case 1
  show ?case by simp
next
  case (2 x)
  then show ?case by (simp add: split_ws_word)
next
  case (3 x y ys)
  have "split_ws (x @ CHR '' '' # join '' '' (y # ys)) = split_ws x @ split_ws (join '' '' (y # ys))"
    by (rule split_ws_sep) simp
  with 3 show ?case by (simp add: split_ws_word)
qed

lemma split_ws_join_NL: "split_ws (join [NL] ls) = concat (map split_ws ls)"
proof (induction "[NL]" ls rule: join.induct)
  case 1
  show ?case by simp
next
  case (2 x)
  show ?case by simp
next
  case (3 x y ys)
  have "split_ws (x @ NL # join [NL] (y # ys)) = split_ws x @ split_ws (join [NL] (y # ys))"
    by (rule split_ws_sep) simp
  with 3 show ?case by simp
qed

lemma split_acc_words:
  "\<forall>c\<in>set w. \<not> isspace c \<Longrightarrow> u \<in> set (split_acc w s) \<Longrightarrow> is_word u"
proof (induction s arbitrary: w)
  case Nil
  then show ?case by (auto simp: is_word_def split: if_splits)
next
  case (Cons a s)
  show ?case
  proof (cases "isspace a")
    case True
    with Cons.prems(2) have "u = w \<and> w \<noteq> [] \<or> u \<in> set (split_acc [] s)"
      by (auto split: if_splits)
    then show ?thesis
      using Cons.prems(1) Cons.IH [of "[]"] by (auto simp: is_word_def)
  next
    case False
    with Cons.prems(2) have "u \<in> set (split_acc (w @ [a]) s)" by simp
    moreover from False Cons.prems(1) have "\<forall>c\<in>set (w @ [a]). \<not> isspace c" by simp
    ultimately show ?thesis using Cons.IH by blast
  qed
qed

lemma split_ws_words: "\<forall>u\<in>set (split_ws s). is_word u"
  using split_acc_words [of "[]" _ s] by (simp add: split_ws_def)

lemma split_acc_Nil_iff: "split_acc w s = [] \<longleftrightarrow> w = [] \<and> (\<forall>c\<in>set s. isspace c)"
  by (induction s arbitrary: w) auto

lemma split_ws_Nil_iff: "split_ws s = [] \<longleftrightarrow> (\<forall>c\<in>set s. isspace c)"
  by (simp add: split_ws_def split_acc_Nil_iff)

lemma dropWhile_all_iff: "(\<forall>c\<in>set (dropWhile P s). P c) \<longleftrightarrow> (\<forall>c\<in>set s. P c)"
  by (induction s) auto

lemma strip_Nil_iff: "strip s = [] \<longleftrightarrow> (\<forall>c\<in>set s. isspace c)"
proof -
  have "strip s = [] \<longleftrightarrow> dropWhile isspace (rev (dropWhile isspace s)) = []"
    by (simp add: strip_def)
  also have "\<dots> \<longleftrightarrow> (\<forall>c\<in>set (dropWhile isspace s). isspace c)"
    by (simp add: dropWhile_eq_Nil_conv)
  also have "\<dots> \<longleftrightarrow> (\<forall>c\<in>set s. isspace c)"
    by (rule dropWhile_all_iff)
  finally show ?thesis .
qed

lemma startswith_heading_blank:
  assumes "startswith s ''## ''"
  shows "CHR '' '' \<in> set s"
proof -
  from assms have e: "take (length ''## '') s = ''## ''"
    unfolding startswith_def .
  have "CHR '' '' \<in> set ''## ''" by simp
  with e have "CHR '' '' \<in> set (take (length ''## '') s)" by simp
  then show ?thesis by (rule in_set_takeD)
qed

lemma split_on_not_Nil [simp]: "split_on sep s \<noteq> []"
  by (induction s) (auto split: list.splits)

lemma split_on_snoc: "sep \<notin> set l \<Longrightarrow> split_on sep (p @ sep # l) = split_on sep p @ [l]"
proof (induction p)
  case Nil
  then show ?case by (simp add: split_on_no_sep)
next
  case (Cons c p)
  then show ?case by (cases "split_on sep p") auto
qed

lemma join_Cons: "ys \<noteq> [] \<Longrightarrow> join sep (x # ys) = x @ sep @ join sep ys"
  by (cases ys) simp_all

lemma join_split_on: "join [sep] (split_on sep s) = s"
proof (induction s)
  case Nil
  show ?case by simp
next
  case (Cons c cs)
  obtain y ys where r: "split_on sep cs = y # ys"
    by (cases "split_on sep cs") simp_all
  show ?case
  proof (cases "c = sep")
    case True
    with Cons r show ?thesis by simp
  next
    case False
    with Cons r show ?thesis by (cases ys) simp_all
  qed
qed

lemma split_ws_paragraphs: "split_ws s = concat (map split_ws (split_on NL s))"
  using split_ws_join_NL [of "split_on NL s"] by (simp add: join_split_on)

lemma word_facts:
  assumes "is_word w"
  shows "split_on NL w = [w]" and "strip w \<noteq> []" and "\<not> startswith w ''## ''"
    and "split_ws w = [w]"
proof -
  from assms have ne: "w \<noteq> []" and ns: "\<forall>c\<in>set w. \<not> isspace c"
    by (simp_all add: is_word_def)
  from ns have "NL \<notin> set w" using isspace_NL by blast
  then show "split_on NL w = [w]" by (rule split_on_no_sep)
  from ne ns show "strip w \<noteq> []" by (auto simp: strip_Nil_iff neq_Nil_conv)
  from ns show "\<not> startswith w ''## ''" using startswith_heading_blank isspace_blank by blast
  from assms show "split_ws w = [w]" by (rule split_ws_word)
qed

lemma heading_words:
  assumes "startswith p ''## ''"
  shows "split_ws (drop 3 p) = tl (split_ws p)"
proof -
  define r where "r = drop 3 p"
  have l3: "length ''## '' = 3" by simp
  from assms have "take (length ''## '') p = ''## ''"
    unfolding startswith_def .
  then have e3: "take 3 p = ''## ''" by (simp only: l3)
  have "take 3 p @ drop 3 p = p" by (rule append_take_drop_id)
  then have "''## '' @ r = p" by (simp only: e3 r_def)
  then have "p = ''##'' @ CHR '' '' # r" by simp
  then have "split_ws p = split_ws (''##'' @ CHR '' '' # r)" by (rule arg_cong)
  also have "\<dots> = split_ws ''##'' @ split_ws r"
    by (rule split_ws_sep) simp
  also have "split_ws ''##'' = [''##'']"
    by (simp add: split_ws_def isspace_def)
  finally have "split_ws p = [''##''] @ split_ws r" .
  then show ?thesis by (simp add: r_def)
qed

lemma blank_words: "strip p = [] \<Longrightarrow> split_ws p = []"
  by (simp add: strip_Nil_iff split_ws_Nil_iff)

lemma butlast_ConsI: "x \<in> set (butlast ys) \<Longrightarrow> x \<in> set (butlast (y # ys))"
  by (cases ys) auto



section \<open>Properties of the word wrapper\<close>

lemma wrap_word_words:
  assumes "\<forall>w\<in>set cur. is_word w" and "is_word word"
    and "wrap_word m font mw word (lines, cur) = (lines', cur')"
  shows "concat (map split_ws lines') @ cur' = concat (map split_ws lines) @ cur @ [word]
         \<and> (\<forall>w\<in>set cur'. is_word w)"
  using assms by (auto simp: wrap_word_def Let_def split_ws_join_blank split: if_splits)

lemma fold_wrap_word_words:
  assumes "\<forall>w\<in>set cur. is_word w" and "\<forall>w\<in>set ws. is_word w"
    and "fold (wrap_word m font mw) ws (lines, cur) = (lines', cur')"
  shows "concat (map split_ws lines') @ cur' = concat (map split_ws lines) @ cur @ ws
         \<and> (\<forall>w\<in>set cur'. is_word w)"
  using assms
proof (induction ws arbitrary: lines cur)
  case Nil
  then show ?case by simp
next
  case (Cons a ws)
  obtain l1 c1 where step: "wrap_word m font mw a (lines, cur) = (l1, c1)"
    by (cases "wrap_word m font mw a (lines, cur)")
  from Cons.prems(1,2) step
  have s: "concat (map split_ws l1) @ c1 = concat (map split_ws lines) @ cur @ [a]"
    and w1: "\<forall>w\<in>set c1. is_word w"
    using wrap_word_words [of cur a m font mw lines l1 c1] by simp_all
  from Cons.prems(3) step have "fold (wrap_word m font mw) ws (l1, c1) = (lines', cur')"
    by simp
  with w1 Cons.prems(2)
  have "concat (map split_ws lines') @ cur' = concat (map split_ws l1) @ c1 @ ws
         \<and> (\<forall>w\<in>set cur'. is_word w)"
    using Cons.IH [of c1 l1] by simp
  with s show ?case by simp
qed

lemma fold_wrap_word_fits:
  assumes "\<forall>k. 0 < k \<and> k \<le> length ws \<longrightarrow> bbox_width (m font (join '' '' (cur @ take k ws))) \<le> mw"
  shows "fold (wrap_word m font mw) ws (lines, cur) = (lines, cur @ ws)"
  using assms
proof (induction ws arbitrary: cur)
  case Nil
  show ?case by simp
next
  case (Cons a ws)
  from Cons.prems [rule_format, of 1] have "bbox_width (m font (join '' '' (cur @ [a]))) \<le> mw"
    by simp
  then have step: "wrap_word m font mw a (lines, cur) = (lines, cur @ [a])"
    by (simp add: wrap_word_def)
  have "\<forall>k. 0 < k \<and> k \<le> length ws \<longrightarrow>
          bbox_width (m font (join '' '' ((cur @ [a]) @ take k ws))) \<le> mw"
  proof (intro allI impI)
    fix k assume "0 < k \<and> k \<le> length ws"
    with Cons.prems [rule_format, of "Suc k"]
    show "bbox_width (m font (join '' '' ((cur @ [a]) @ take k ws))) \<le> mw" by simp
  qed
  then have "fold (wrap_word m font mw) ws (lines, cur @ [a]) = (lines, (cur @ [a]) @ ws)"
    by (rule Cons.IH)
  with step show ?case by simp
qed

lemma wrap_fitting_paragraph:
  assumes "NL \<notin> set text" and "\<not> startswith text ''## ''"
    and "\<forall>k. 0 < k \<and> k \<le> length (split_ws text) \<longrightarrow>
           bbox_width (m font (join '' '' (take k (split_ws text)))) \<le> max_width"
  shows "split_text_into_lines m text max_width font = join '' '' (split_ws text)"
proof (cases "strip text = []")
  case True
  with assms have "split_text_into_lines m text max_width font = []"
    by (simp add: split_text_into_lines_def split_on_no_sep wrap_paragraph_def)
  moreover from True have "split_ws text = []"
    by (simp add: strip_Nil_iff split_ws_Nil_iff)
  ultimately show ?thesis by simp
next
  case False
  then have ne: "split_ws text \<noteq> []"
    by (simp add: strip_Nil_iff split_ws_Nil_iff)
  from assms(3) have "fold (wrap_word m font max_width) (split_ws text) ([], []) = ([], split_ws text)"
    using fold_wrap_word_fits [of "split_ws text" m font "[]" max_width "[]"] by simp
  with assms(1,2) False ne show ?thesis
    by (simp add: split_text_into_lines_def split_on_no_sep wrap_paragraph_def)
qed

text \<open>
  The words that the wrapper emits. While \<open>current_line\<close> is empty when a paragraph is
  entered, the paragraph adds exactly its own words to the output, a heading without its
  marker.
\<close>

lemma wrap_blank_paragraph:
  "strip p = [] \<Longrightarrow> wrap_paragraph m font mw p (lines, cur) = (lines @ [[]], cur)"
  unfolding wrap_paragraph_def by simp

lemma fold_wrap_blank_paragraphs:
  assumes "\<forall>p\<in>set ps. strip p = []"
  shows "fold (wrap_paragraph m font mw) ps (lines, cur) = (lines @ map (\<lambda>p. []) ps, cur)"
  using assms
proof (induction ps arbitrary: lines)
  case Nil
  show ?case by simp
next
  case (Cons a ps)
  from Cons.prems have a: "strip a = []" and ps: "\<forall>p\<in>set ps. strip p = []" by simp_all
  have "fold (wrap_paragraph m font mw) (a # ps) (lines, cur) =
          fold (wrap_paragraph m font mw) ps (lines @ [[]], cur)"
    by (simp only: fold_simps wrap_blank_paragraph [OF a])
  also have "\<dots> = ((lines @ [[]]) @ map (\<lambda>p. []) ps, cur)"
    using ps by (rule Cons.IH)
  finally show ?case by simp
qed

lemma blank_paragraphs_marker_free:
  assumes "\<forall>p\<in>set ps. strip p = []"
  shows "concat (map (\<lambda>p. if startswith p ''## '' then tl (split_ws p) else split_ws p) ps) = []"
  using assms
proof (induction ps)
  case Nil
  show ?case by simp
next
  case (Cons a ps)
  from Cons.prems have "strip a = []" and ps: "\<forall>p\<in>set ps. strip p = []" by simp_all
  then have w: "split_ws a = []" by (intro blank_words)
  from ps have "concat (map (\<lambda>p. if startswith p ''## '' then tl (split_ws p) else split_ws p) ps) = []"
    by (rule Cons.IH)
  then show ?case by (simp add: w)
qed

lemma blank_paragraphs_words:
  assumes "\<forall>p\<in>set ps. strip p = []"
  shows "concat (map split_ws (fst (fold (wrap_paragraph m font mw) ps (lines, cur)))) =
           concat (map split_ws lines)"
proof -
  have "concat (map split_ws (map (\<lambda>p. []) ps)) = []"
    by (induction ps) simp_all
  then show ?thesis
    by (simp add: fold_wrap_blank_paragraphs [OF assms])
qed

lemma wrap_body_paragraph_words:
  assumes "strip p \<noteq> []" and "\<not> startswith p ''## ''"
  shows "concat (map split_ws (fst (wrap_paragraph m font mw p (lines, [])))) =
           concat (map split_ws lines) @ split_ws p"
proof -
  obtain l1 c1 where f: "fold (wrap_word m font mw) (split_ws p) (lines, []) = (l1, c1)"
    by (cases "fold (wrap_word m font mw) (split_ws p) (lines, [])")
  have inv: "concat (map split_ws l1) @ c1 = concat (map split_ws lines) @ split_ws p"
    and w1: "\<forall>w\<in>set c1. is_word w"
    using fold_wrap_word_words [OF _ split_ws_words f] by simp_all
  from assms f have "fst (wrap_paragraph m font mw p (lines, [])) =
      (if c1 \<noteq> [] then l1 @ [join '' '' c1] else l1)"
    by (simp add: wrap_paragraph_def)
  with inv w1 show ?thesis by (auto simp: split_ws_join_blank)
qed

lemma fold_wrap_paragraph_words:
  assumes "\<forall>p\<in>set (butlast (filter (\<lambda>p. strip p \<noteq> []) ps)). startswith p ''## ''"
  shows "concat (map split_ws (fst (fold (wrap_paragraph m font mw) ps (lines, [])))) =
           concat (map split_ws lines) @
           concat (map (\<lambda>p. if startswith p ''## '' then tl (split_ws p) else split_ws p) ps)"
  using assms
proof (induction ps arbitrary: lines)
  case Nil
  show ?case by simp
next
  case (Cons p ps)
  let ?nb = "filter (\<lambda>p. strip p \<noteq> []) ps"
  show ?case
  proof (cases "strip p = []")
    case True
    then have w: "split_ws p = []" by (rule blank_words)
    from True have step: "wrap_paragraph m font mw p (lines, []) = (lines @ [[]], [])"
      by (simp add: wrap_paragraph_def)
    from True Cons.prems have "\<forall>p\<in>set (butlast ?nb). startswith p ''## ''" by simp
    then have "concat (map split_ws (fst (fold (wrap_paragraph m font mw) ps (lines @ [[]], [])))) =
           concat (map split_ws (lines @ [[]])) @
           concat (map (\<lambda>p. if startswith p ''## '' then tl (split_ws p) else split_ws p) ps)"
      by (rule Cons.IH)
    with step w show ?thesis by simp
  next
    case False
    then have nb: "filter (\<lambda>p. strip p \<noteq> []) (p # ps) = p # ?nb" by simp
    from Cons.prems have pr: "\<forall>q\<in>set (butlast (p # ?nb)). startswith q ''## ''"
      by (simp only: nb)
    show ?thesis
    proof (cases "startswith p ''## ''")
      case True
      with False have step: "wrap_paragraph m font mw p (lines, []) = (lines @ [drop 3 p], [])"
        by (simp add: wrap_paragraph_def)
      have "\<forall>q\<in>set (butlast ?nb). startswith q ''## ''"
      proof
        fix q
        assume "q \<in> set (butlast ?nb)"
        then have "q \<in> set (butlast (p # ?nb))" by (rule butlast_ConsI)
        with pr show "startswith q ''## ''" by (rule bspec)
      qed
      then have "concat (map split_ws (fst (fold (wrap_paragraph m font mw) ps (lines @ [drop 3 p], [])))) =
           concat (map split_ws (lines @ [drop 3 p])) @
           concat (map (\<lambda>p. if startswith p ''## '' then tl (split_ws p) else split_ws p) ps)"
        by (rule Cons.IH)
      with step True show ?thesis
        by (simp add: heading_words)
    next
      case body: False
      have "?nb = []"
      proof (rule ccontr)
        assume "?nb \<noteq> []"
        then have "p \<in> set (butlast (p # ?nb))" by simp
        with pr have "startswith p ''## ''" by (rule bspec)
        with body show False by simp
      qed
      then have blank: "\<forall>q\<in>set ps. strip q = []"
        by (simp add: filter_empty_conv)
      obtain l1 c1 where step: "wrap_paragraph m font mw p (lines, []) = (l1, c1)"
        by (cases "wrap_paragraph m font mw p (lines, [])")
      from wrap_body_paragraph_words [OF False body, of m font mw lines] step
      have a: "concat (map split_ws l1) = concat (map split_ws lines) @ split_ws p" by simp
      have b: "concat (map split_ws (fst (fold (wrap_paragraph m font mw) ps (l1, c1)))) =
           concat (map split_ws l1)"
        using blank by (rule blank_paragraphs_words)
      have c: "concat (map (\<lambda>p. if startswith p ''## '' then tl (split_ws p) else split_ws p) ps) = []"
        using blank by (rule blank_paragraphs_marker_free)
      from a b c step body show ?thesis by simp
    qed
  qed
qed

text \<open>
  The flush at the end of a paragraph (lines 54 and 55 of the source) appends
  \<open>current_line\<close> and does not empty it, whereas the flush of the heading branch and the
  overflow branch both start a new \<open>current_line\<close>. A body paragraph therefore leaves
  its last line in \<open>current_line\<close>, and the next non-blank paragraph emits that line again:
  a heading flushes it once more, a body paragraph continues it. Whenever a body paragraph
  is followed by a further non-blank paragraph, the output has more words than the text.
\<close>

lemma wrap_word_current_line: "snd (wrap_word m font mw word st) \<noteq> []"
  by (cases st) (simp add: wrap_word_def Let_def)

lemma fold_wrap_word_current_line:
  "ws \<noteq> [] \<Longrightarrow> snd (fold (wrap_word m font mw) ws st) \<noteq> []"
proof (induction ws rule: rev_induct)
  case Nil
  then show ?case by simp
next
  case (snoc x xs)
  show ?case by (simp add: wrap_word_current_line)
qed

lemma wrap_paragraph_step:
  assumes "\<forall>w\<in>set cur. is_word w"
    and "wrap_paragraph m font mw p (lines, cur) = (l', c')"
  shows "\<forall>w\<in>set c'. is_word w"
    and "length (concat (map split_ws lines)) +
           length (if startswith p ''## '' then tl (split_ws p) else split_ws p)
         \<le> length (concat (map split_ws l'))"
    and "strip p \<noteq> [] \<Longrightarrow> cur \<noteq> [] \<Longrightarrow>
         length (concat (map split_ws lines)) +
           length (if startswith p ''## '' then tl (split_ws p) else split_ws p)
         < length (concat (map split_ws l'))"
    and "strip p = [] \<Longrightarrow> c' = cur"
    and "strip p \<noteq> [] \<Longrightarrow> startswith p ''## '' \<Longrightarrow> c' = []"
    and "strip p \<noteq> [] \<Longrightarrow> \<not> startswith p ''## '' \<Longrightarrow> c' \<noteq> []"
proof -
  consider (blank) "strip p = []"
    | (heading) "strip p \<noteq> []" "startswith p ''## ''"
    | (body) "strip p \<noteq> []" "\<not> startswith p ''## ''" by blast
  then have "(\<forall>w\<in>set c'. is_word w)
    \<and> length (concat (map split_ws lines)) +
           length (if startswith p ''## '' then tl (split_ws p) else split_ws p)
         \<le> length (concat (map split_ws l'))
    \<and> (strip p \<noteq> [] \<longrightarrow> cur \<noteq> [] \<longrightarrow>
         length (concat (map split_ws lines)) +
           length (if startswith p ''## '' then tl (split_ws p) else split_ws p)
         < length (concat (map split_ws l')))
    \<and> (strip p = [] \<longrightarrow> c' = cur)
    \<and> (strip p \<noteq> [] \<longrightarrow> startswith p ''## '' \<longrightarrow> c' = [])
    \<and> (strip p \<noteq> [] \<longrightarrow> \<not> startswith p ''## '' \<longrightarrow> c' \<noteq> [])"
  proof cases
    case blank
    then have w: "split_ws p = []" by (rule blank_words)
    from blank assms(2) have "l' = lines @ [[]]" and "c' = cur"
      by (simp_all add: wrap_blank_paragraph)
    with assms(1) blank w show ?thesis by simp
  next
    case heading
    have hw: "split_ws (drop 3 p) = tl (split_ws p)"
      using heading(2) by (rule heading_words)
    show ?thesis
    proof (cases "cur = []")
      case True
      with heading assms(2) have "l' = lines @ [drop 3 p]" and "c' = []"
        by (simp_all add: wrap_paragraph_def)
      with heading True hw show ?thesis by simp
    next
      case False
      with heading assms(2) have "l' = lines @ [join '' '' cur] @ [drop 3 p]" and "c' = []"
        by (simp_all add: wrap_paragraph_def)
      moreover from assms(1) have "split_ws (join '' '' cur) = cur"
        by (rule split_ws_join_blank)
      moreover from False have "0 < length cur" by simp
      ultimately show ?thesis using heading hw by simp
    qed
  next
    case body
    then have ne: "split_ws p \<noteq> []"
      by (simp add: strip_Nil_iff split_ws_Nil_iff)
    obtain l1 c1 where f: "fold (wrap_word m font mw) (split_ws p) (lines, cur) = (l1, c1)"
      by (cases "fold (wrap_word m font mw) (split_ws p) (lines, cur)")
    have inv: "concat (map split_ws l1) @ c1 = concat (map split_ws lines) @ cur @ split_ws p"
      and w1: "\<forall>w\<in>set c1. is_word w"
      using fold_wrap_word_words [OF assms(1) split_ws_words f] by simp_all
    from fold_wrap_word_current_line [OF ne, of m font mw "(lines, cur)"] f
    have c1: "c1 \<noteq> []" by simp
    from body f c1 have "wrap_paragraph m font mw p (lines, cur) = (l1 @ [join '' '' c1], c1)"
      by (simp add: wrap_paragraph_def)
    with assms(2) have "(l', c') = (l1 @ [join '' '' c1], c1)"
      by (rule trans [OF sym])
    then have l': "l' = l1 @ [join '' '' c1]" and c': "c' = c1"
      by (auto elim: Pair_inject)
    from w1 have "split_ws (join '' '' c1) = c1" by (rule split_ws_join_blank)
    then have "concat (map split_ws l') = concat (map split_ws l1) @ c1"
      by (simp add: l')
    with inv have "length (concat (map split_ws l')) =
        length (concat (map split_ws lines)) + length cur + length (split_ws p)"
      by simp
    moreover have "cur \<noteq> [] \<longrightarrow> 0 < length cur" by simp
    ultimately show ?thesis using body w1 c1 c' by simp
  qed
  then show "\<forall>w\<in>set c'. is_word w"
    and "length (concat (map split_ws lines)) +
           length (if startswith p ''## '' then tl (split_ws p) else split_ws p)
         \<le> length (concat (map split_ws l'))"
    and "strip p \<noteq> [] \<Longrightarrow> cur \<noteq> [] \<Longrightarrow>
         length (concat (map split_ws lines)) +
           length (if startswith p ''## '' then tl (split_ws p) else split_ws p)
         < length (concat (map split_ws l'))"
    and "strip p = [] \<Longrightarrow> c' = cur"
    and "strip p \<noteq> [] \<Longrightarrow> startswith p ''## '' \<Longrightarrow> c' = []"
    and "strip p \<noteq> [] \<Longrightarrow> \<not> startswith p ''## '' \<Longrightarrow> c' \<noteq> []"
    by blast+
qed


lemma fold_wrap_paragraph_length:
  assumes "\<forall>w\<in>set cur. is_word w"
  shows "length (concat (map split_ws lines)) +
           length (concat (map (\<lambda>p. if startswith p ''## '' then tl (split_ws p) else split_ws p) ps))
         \<le> length (concat (map split_ws (fst (fold (wrap_paragraph m font mw) ps (lines, cur)))))"
  using assms
proof (induction ps arbitrary: lines cur)
  case Nil
  show ?case by simp
next
  case (Cons p ps)
  obtain l1 c1 where step: "wrap_paragraph m font mw p (lines, cur) = (l1, c1)"
    by (cases "wrap_paragraph m font mw p (lines, cur)")
  note s = wrap_paragraph_step [OF Cons.prems step]
  from s(1) have "length (concat (map split_ws l1)) +
           length (concat (map (\<lambda>p. if startswith p ''## '' then tl (split_ws p) else split_ws p) ps))
         \<le> length (concat (map split_ws (fst (fold (wrap_paragraph m font mw) ps (l1, c1)))))"
    by (rule Cons.IH)
  with s(2) step show ?case by simp
qed

lemma fold_wrap_paragraph_repeats:
  assumes "\<forall>w\<in>set cur. is_word w"
    and "cur \<noteq> [] \<and> (\<exists>p\<in>set ps. strip p \<noteq> [])
         \<or> \<not> (\<forall>p\<in>set (butlast (filter (\<lambda>p. strip p \<noteq> []) ps)). startswith p ''## '')"
  shows "length (concat (map split_ws lines)) +
           length (concat (map (\<lambda>p. if startswith p ''## '' then tl (split_ws p) else split_ws p) ps))
         < length (concat (map split_ws (fst (fold (wrap_paragraph m font mw) ps (lines, cur)))))"
  using assms
proof (induction ps arbitrary: lines cur)
  case Nil
  then show ?case by simp
next
  case (Cons p ps)
  let ?nb = "filter (\<lambda>p. strip p \<noteq> []) ps"
  let ?W = "concat (map (\<lambda>p. if startswith p ''## '' then tl (split_ws p) else split_ws p) ps)"
  obtain l1 c1 where step: "wrap_paragraph m font mw p (lines, cur) = (l1, c1)"
    by (cases "wrap_paragraph m font mw p (lines, cur)")
  note s = wrap_paragraph_step [OF Cons.prems(1) step]
  have ge: "length (concat (map split_ws l1)) + length ?W
         \<le> length (concat (map split_ws (fst (fold (wrap_paragraph m font mw) ps (l1, c1)))))"
    using s(1) by (rule fold_wrap_paragraph_length)
  have gt: "length (concat (map split_ws l1)) + length ?W
         < length (concat (map split_ws (fst (fold (wrap_paragraph m font mw) ps (l1, c1)))))"
    if "c1 \<noteq> [] \<and> (\<exists>p\<in>set ps. strip p \<noteq> [])
         \<or> \<not> (\<forall>p\<in>set (butlast ?nb). startswith p ''## '')"
    using s(1) that by (rule Cons.IH)
  show ?case
  proof (cases "strip p = []")
    case True
    then have "c1 = cur" by (rule s(4))
    moreover from True have "filter (\<lambda>p. strip p \<noteq> []) (p # ps) = ?nb" by simp
    ultimately have "c1 \<noteq> [] \<and> (\<exists>p\<in>set ps. strip p \<noteq> [])
         \<or> \<not> (\<forall>p\<in>set (butlast ?nb). startswith p ''## '')"
      using Cons.prems(2) True by auto
    then have "length (concat (map split_ws l1)) + length ?W
         < length (concat (map split_ws (fst (fold (wrap_paragraph m font mw) ps (l1, c1)))))"
      by (rule gt)
    with s(2) step show ?thesis by simp
  next
    case False
    then have nb: "filter (\<lambda>p. strip p \<noteq> []) (p # ps) = p # ?nb" by simp
    show ?thesis
    proof (cases "cur \<noteq> []")
      case True
      from s(3) [OF False True] ge step show ?thesis by simp
    next
      case cur: False
      with Cons.prems(2) have np: "\<not> (\<forall>q\<in>set (butlast (p # ?nb)). startswith q ''## '')"
        by (simp only: nb) simp
      then have ne: "?nb \<noteq> []" by auto
      then have ex: "\<exists>p\<in>set ps. strip p \<noteq> []"
        by (auto simp: filter_empty_conv)
      show ?thesis
      proof (cases "startswith p ''## ''")
        case True
        with np ne have "\<not> (\<forall>q\<in>set (butlast ?nb). startswith q ''## '')" by auto
        then have "length (concat (map split_ws l1)) + length ?W
           < length (concat (map split_ws (fst (fold (wrap_paragraph m font mw) ps (l1, c1)))))"
          using gt by blast
        with s(2) step show ?thesis by simp
      next
        case body: False
        with False have "c1 \<noteq> []" by (rule s(6))
        with ex have "length (concat (map split_ws l1)) + length ?W
           < length (concat (map split_ws (fst (fold (wrap_paragraph m font mw) ps (l1, c1)))))"
          using gt by blast
        with s(2) step show ?thesis by simp
      qed
    qed
  qed
qed

lemma wrap_repeats_words:
  assumes "\<not> (\<forall>p\<in>set (butlast (filter (\<lambda>p. strip p \<noteq> []) (split_on NL s))). startswith p ''## '')"
  shows "length (concat (map (\<lambda>p. if startswith p ''## '' then tl (split_ws p) else split_ws p)
                       (split_on NL s)))
         < length (split_ws (split_text_into_lines m s max_width font))"
proof -
  have "\<forall>w\<in>set ([]::string list). is_word w" by simp
  from fold_wrap_paragraph_repeats [OF this disjI2, OF assms, of "[]" m font max_width]
  show ?thesis
    by (simp add: split_text_into_lines_def split_ws_join_NL)
qed


section \<open>Properties of the font-size adapter and the composer\<close>

lemma adjust_from_none:
  assumes "\<forall>t. 10 < t \<and> t \<le> fs \<longrightarrow> \<not> fits_at avail m text path mw mh t"
  shows "fst (adjust_from avail m text path mw mh fs) = ([], None)"
  using assms
proof (induction "nat (fs - 10)" arbitrary: fs)
  case 0
  then have "\<not> fs > 10" by simp
  then show ?case by (simp add: adjust_from.simps)
next
  case (Suc n)
  from Suc.hyps(2) have gt: "fs > 10" and n: "n = nat ((fs - 1) - 10)" by linarith+
  from Suc.prems gt have nf: "\<not> fits_at avail m text path mw mh fs" by simp
  from Suc.prems have "\<forall>t. 10 < t \<and> t \<le> fs - 1 \<longrightarrow> \<not> fits_at avail m text path mw mh t" by simp
  with Suc.hyps(1) [OF n] have IH: "fst (adjust_from avail m text path mw mh (fs - 1)) = ([], None)" .
  show ?case
    using gt nf IH
    by (subst adjust_from.simps) (auto simp: fits_at_def Let_def split: prod.splits)
qed

lemma adjust_from_first_fit:
  assumes "10 < s" and "s \<le> fs" and "fits_at avail m text path mw mh s"
    and "\<forall>t. s < t \<and> t \<le> fs \<longrightarrow> \<not> fits_at avail m text path mw mh t"
  shows "fst (adjust_from avail m text path mw mh fs) =
           (split_text_into_lines m text (mw - 200) (fst (load_font avail path s)),
            fst (load_font avail path s))"
  using assms
proof (induction "nat (fs - s)" arbitrary: fs)
  case 0
  then have "fs = s" by simp
  with 0 show ?case
    by (subst adjust_from.simps) (auto simp: fits_at_def Let_def split: prod.splits)
next
  case (Suc n)
  from Suc.hyps(2) have gt: "fs > s" and n: "n = nat ((fs - 1) - s)" by linarith+
  from Suc.prems gt have nf: "\<not> fits_at avail m text path mw mh fs" by simp
  from Suc.prems have "\<forall>t. s < t \<and> t \<le> fs - 1 \<longrightarrow> \<not> fits_at avail m text path mw mh t" by simp
  with Suc.hyps(1) [OF n Suc.prems(1) _ Suc.prems(3)] gt
  have IH: "fst (adjust_from avail m text path mw mh (fs - 1)) =
           (split_text_into_lines m text (mw - 200) (fst (load_font avail path s)),
            fst (load_font avail path s))" by simp
  from gt Suc.prems(1) have "fs > 10" by simp
  then show ?case
    using nf IH
    by (subst adjust_from.simps) (auto simp: fits_at_def Let_def split: prod.splits)
qed

lemma adjust_from_silent:
  assumes "avail path"
  shows "snd (adjust_from avail m text path mw mh fs) = []"
proof (induction "nat (fs - 10)" arbitrary: fs)
  case 0
  then have "\<not> fs > 10" by simp
  then show ?case by (simp add: adjust_from.simps)
next
  case (Suc n)
  from Suc.hyps(2) have gt: "fs > 10" and n: "n = nat ((fs - 1) - 10)" by linarith+
  from Suc.hyps(1) [OF n] have IH: "snd (adjust_from avail m text path mw mh (fs - 1)) = []" .
  show ?case
    using gt IH assms
    by (subst adjust_from.simps) (auto simp: load_font_def Let_def split: prod.splits)
qed

lemma wrap_empty [simp]: "split_text_into_lines m [] max_width font = []"
  by (simp add: split_text_into_lines_def wrap_paragraph_def strip_def)

lemma adjust_from_empty_text:
  "fst (fst (adjust_from avail m [] path mw mh fs)) = []"
proof (induction "nat (fs - 10)" arbitrary: fs)
  case 0
  then have "\<not> fs > 10" by simp
  then show ?case by (simp add: adjust_from.simps)
next
  case (Suc n)
  from Suc.hyps(2) have gt: "fs > 10" and n: "n = nat ((fs - 1) - 10)" by linarith+
  from Suc.hyps(1) [OF n] have IH: "fst (fst (adjust_from avail m [] path mw mh (fs - 1))) = []" .
  show ?case
    using gt IH
    by (subst adjust_from.simps) (auto simp: Let_def split: prod.splits)
qed

lemma composer_reports_empty_format:
  assumes "avail path" and "fst (fst (adjust_font_size avail m text path 2000 3000)) = []"
  shows "text_to_handwriting avail m h text path output_path font_color previous_texts =
           \<lparr>returned = None, st_errors = [could_not_format], saved = None, store_after = h\<rparr>"
proof -
  have "snd (adjust_font_size avail m text path 2000 3000) = []"
    using assms(1) by (simp add: adjust_font_size_def adjust_from_silent)
  moreover obtain ft font es where "adjust_font_size avail m text path 2000 3000 = ((ft, font), es)"
    by (cases "adjust_font_size avail m text path 2000 3000") auto
  ultimately have "adjust_font_size avail m text path 2000 3000 = (([], font), [])"
    using assms(2) by simp
  with assms(1) show ?thesis
    by (simp add: text_to_handwriting_def load_font_def split: option.splits)
qed


lemma adjust_empty_text_at_60:
  assumes "avail path"
    and "bbox_width (m (Some \<lparr>font_path = path, font_size = 60\<rparr>) []) \<le> 1800"
    and "bbox_height (m (Some \<lparr>font_path = path, font_size = 60\<rparr>) []) \<le> 2800"
  shows "adjust_font_size avail m [] path 2000 3000 =
           (([], Some \<lparr>font_path = path, font_size = 60\<rparr>), [])"
  using assms
  by (simp add: adjust_font_size_def adjust_from.simps [of _ _ _ _ _ _ 60] load_font_def
        text_fits_on_page_def)


section \<open>Properties of the line renderer\<close>

lemma render_lines_snoc:
  "render_lines x hf f c d (pre @ [l]) st = draw_line x hf f c d l (render_lines x hf f c d pre st)"
  by (simp add: render_lines_def)

lemma draw_line_skip:
  assumes "strip l \<noteq> []"
    and "l \<in> sets st d \<or> (\<not> startswith l ''## '' \<and> strip (previous_line st) = strip l)"
  shows "draw_line x hf f c d l st = st"
  using assms by (auto simp: draw_line_def)

lemma draw_line_sets_mono: "sets st a \<subseteq> sets (draw_line x hf f c d l st) a"
  by (auto simp: draw_line_def)

lemma draw_line_sets_other: "a \<noteq> d \<Longrightarrow> sets (draw_line x hf f c d l st) a = sets st a"
  by (simp add: draw_line_def)

lemma draw_line_drawn_in_set:
  "canvas (draw_line x hf f c d l st) \<noteq> canvas st \<Longrightarrow> l \<in> sets (draw_line x hf f c d l st) d"
  by (auto simp: draw_line_def split: if_splits)

lemma draw_line_advance:
  "cur_y (draw_line x hf f c d l st) - cur_y st =
     (if strip l = [] then font_size f + 8
      else if canvas (draw_line x hf f c d l st) = canvas st then 0
      else if startswith l ''## '' then font_size hf + 12
      else font_size f + 8)"
  by (simp add: draw_line_def)

lemma render_lines_sets_mono: "sets st a \<subseteq> sets (render_lines x hf f c d ls st) a"
proof (induction ls arbitrary: st)
  case Nil
  show ?case by (simp add: render_lines_def)
next
  case (Cons l ls)
  have "sets st a \<subseteq> sets (draw_line x hf f c d l st) a" by (rule draw_line_sets_mono)
  also have "\<dots> \<subseteq> sets (render_lines x hf f c d ls (draw_line x hf f c d l st)) a"
    by (rule Cons.IH)
  finally show ?case by (simp add: render_lines_def)
qed

lemma render_lines_sets_other:
  "a \<noteq> d \<Longrightarrow> sets (render_lines x hf f c d ls st) a = sets st a"
proof (induction ls arbitrary: st)
  case Nil
  show ?case by (simp add: render_lines_def)
next
  case (Cons l ls)
  from Cons.prems have "sets (render_lines x hf f c d ls (draw_line x hf f c d l st)) a
      = sets (draw_line x hf f c d l st) a" by (rule Cons.IH)
  with Cons.prems show ?case by (simp add: render_lines_def draw_line_sets_other)
qed

lemma render_lines_append:
  "render_lines x hf f c d (pre @ post) st =
     render_lines x hf f c d post (render_lines x hf f c d pre st)"
  by (simp add: render_lines_def)

lemma render_lines_cursor:
  assumes "0 \<le> font_size f" and "0 \<le> font_size hf"
  shows "cur_y st \<le> cur_y (render_lines x hf f c d ls st)"
proof (induction ls arbitrary: st)
  case Nil
  show ?case by (simp add: render_lines_def)
next
  case (Cons l ls)
  have "cur_y st \<le> cur_y (draw_line x hf f c d l st)"
    using assms draw_line_advance [of x hf f c d l st] by (simp split: if_splits)
  also have "\<dots> \<le> cur_y (render_lines x hf f c d ls (draw_line x hf f c d l st))"
    by (rule Cons.IH)
  finally show ?case by (simp add: render_lines_def)
qed

lemma draw_text_result:
  assumes "draw_text h cv t x y hf f c prev = ((y', d), cv', h')"
  shows "d = (case prev of None \<Rightarrow> draw_text_default | Some a \<Rightarrow> a)"
    and "h' = sets (render_lines x hf f c d (split_on NL t) (render_init h cv y))"
  using assms by (auto simp: draw_text_def Let_def)

lemma sets_render_init [simp]: "sets (render_init h cv y) = h"
  by (simp add: render_init_def)

lemma draw_text_append_known_line:
  assumes "l \<in> h d" and "strip l \<noteq> []" and "NL \<notin> set l"
    and "d = (case prev of None \<Rightarrow> draw_text_default | Some a \<Rightarrow> a)"
  shows "draw_text h cv (t @ [NL] @ l) x y hf f c prev = draw_text h cv t x y hf f c prev"
proof -
  have "l \<in> sets (render_lines x hf f c d (split_on NL t) (render_init h cv y)) d"
    using assms(1) render_lines_sets_mono [of "render_init h cv y" d x hf f c d "split_on NL t"]
    by auto
  with assms(2)
  have "draw_line x hf f c d l (render_lines x hf f c d (split_on NL t) (render_init h cv y))
        = render_lines x hf f c d (split_on NL t) (render_init h cv y)"
    by (intro draw_line_skip) simp_all
  with assms(3,4) show ?thesis
    by (simp add: draw_text_def Let_def split_on_snoc render_lines_snoc)
qed

lemma draw_text_Some:
  assumes "draw_text h cv t x y hf f c (Some d) = ((y', a), cv', h')"
  shows "a = d \<and> h d \<subseteq> h' d"
proof -
  note r = draw_text_result [OF assms]
  from r(1) have "a = d" by simp
  moreover have "h d \<subseteq> h' d"
    unfolding r(2) \<open>a = d\<close>
    using render_lines_sets_mono [of "render_init h cv y" d x hf f c d "split_on NL t"] by simp
  ultimately show ?thesis by simp
qed

lemma composer_store:
  assumes "returned (text_to_handwriting avail m h raw path out col prev) = Some (p, a)"
  shows "a = (case prev of None \<Rightarrow> text_to_handwriting_default | Some b \<Rightarrow> b)
         \<and> h a \<subseteq> store_after (text_to_handwriting avail m h raw path out col prev) a"
  using assms
  by (auto simp: text_to_handwriting_def Let_def split: prod.splits option.splits if_splits
        dest!: draw_text_Some)


section \<open>Evaluation on concrete inputs\<close>

lemmas wrap_eval = split_text_into_lines_def wrap_paragraph_def wrap_word_def strip_def
  startswith_def split_ws_def isspace_def fixed_pitch_def bbox_width_def bbox_height_def

lemmas page_eval = text_fits_on_page_def fits_at_def load_font_def adjust_font_size_def
  text_to_handwriting_def draw_text_def render_lines_def render_init_def draw_line_def
  endswith_def could_not_format_def draw_text_default_def text_to_handwriting_default_def

lemmas render_eval = draw_text_def render_lines_def render_init_def draw_line_def strip_def
  startswith_def endswith_def isspace_def draw_text_default_def text_to_handwriting_default_def

lemma fixed_pitch_hello_fits:
  "fits_at (\<lambda>p. True) (fixed_pitch 1) ''Hello world'' ''fonts/Satisfy-Regular.ttf'' 2000 3000 60"
  by (simp add: page_eval wrap_eval)

lemma wide_pitch_never_fits:
  "10 < u \<Longrightarrow> \<not> fits_at (\<lambda>p. True) (fixed_pitch 200) ''x'' ''fonts/Satisfy-Regular.ttf'' 2000 3000 u"
  by (simp add: page_eval wrap_eval)

lemma paragraph_words_carried_over:
  "split_text_into_lines (fixed_pitch 1) (''a'' @ [NL] @ ''b'') 1800
     (Some \<lparr>font_path = ''fonts/Satisfy-Regular.ttf'', font_size = 60\<rparr>) = ''a'' @ [NL] @ ''a b''"
  by (simp add: wrap_eval)

lemma paragraph_line_repeated_before_heading:
  "split_text_into_lines (fixed_pitch 1) (''a'' @ [NL] @ ''## T'') 1800
     (Some \<lparr>font_path = ''fonts/Satisfy-Regular.ttf'', font_size = 60\<rparr>)
     = ''a'' @ [NL] @ ''a'' @ [NL] @ ''T''"
  by (simp add: wrap_eval)


section \<open>Claims\<close>

subsection \<open>C1: a heading followed by a body line\<close>

text \<open>
  Claim C1. For the raw text \<open>## Title\<close>, newline, \<open>Hello world\<close> on a page where the body
  font of size 60 fits, the claim expects one heading line \<open>Title\<close> drawn with the heading
  font and one body line \<open>Hello world\<close> drawn with the body font. On the code the wrapper
  has already removed the marker \<open>## \<close> that the renderer tests for, so the renderer takes
  \<open>Title\<close> for a normal line: both lines are drawn with the body font of size 60, the cursor
  advances by 68 and not by 132, and the heading font of size 120 is never used.
\<close>

theorem heading_drawn_with_body_font:
  assumes "avail path"
    and "bbox_width (m (Some \<lparr>font_path = path, font_size = 60\<rparr>) ''Hello'') \<le> 1800"
    and "bbox_width (m (Some \<lparr>font_path = path, font_size = 60\<rparr>) ''Hello world'') \<le> 1800"
    and "bbox_width (m (Some \<lparr>font_path = path, font_size = 60\<rparr>) ''Title'') \<le> 1800"
    and "bbox_height (m (Some \<lparr>font_path = path, font_size = 60\<rparr>) ''Title'') \<le> 2800"
    and "bbox_height (m (Some \<lparr>font_path = path, font_size = 60\<rparr>) ''Title'') + 8
           + bbox_height (m (Some \<lparr>font_path = path, font_size = 60\<rparr>) ''Hello world'') \<le> 2800"
    and "''Title'' \<notin> h a" and "''Hello world'' \<notin> h a"
  shows "adjust_font_size avail m (''## Title'' @ [NL] @ ''Hello world'') path 2000 3000 =
           ((''Title'' @ [NL] @ ''Hello world'', Some \<lparr>font_path = path, font_size = 60\<rparr>), [])
       \<and> saved (text_to_handwriting avail m h (''## Title'' @ [NL] @ ''Hello world'') path
                  output_path font_color (Some a)) =
           Some (output_path,
             [\<lparr>dc_xy = (100, 100), dc_text = ''Title'',
               dc_font = \<lparr>font_path = path, font_size = 60\<rparr>, dc_fill = font_color\<rparr>,
              \<lparr>dc_xy = (100, 168), dc_text = ''Hello world'',
               dc_font = \<lparr>font_path = path, font_size = 60\<rparr>, dc_fill = font_color\<rparr>])"
proof -
  have w: "split_text_into_lines m (''## Title'' @ [NL] @ ''Hello world'') 1800
             (Some \<lparr>font_path = path, font_size = 60\<rparr>) = ''Title'' @ [NL] @ ''Hello world''"
    using assms(2,3)
    by (simp add: split_text_into_lines_def wrap_paragraph_def wrap_word_def strip_def
          startswith_def split_ws_def isspace_def)
  have f: "text_fits_on_page m (''Title'' @ [NL] @ ''Hello world'')
             (Some \<lparr>font_path = path, font_size = 60\<rparr>) 1800 2800"
    using assms(3,4,5,6) by (simp add: text_fits_on_page_def)
  have a: "adjust_font_size avail m (''## Title'' @ [NL] @ ''Hello world'') path 2000 3000 =
           ((''Title'' @ [NL] @ ''Hello world'', Some \<lparr>font_path = path, font_size = 60\<rparr>), [])"
    using assms(1) w f
    by (simp add: adjust_font_size_def adjust_from.simps [of _ _ _ _ _ _ 60] load_font_def)
  have d: "draw_text h [] (''Title'' @ [NL] @ ''Hello world'') 100 100
             \<lparr>font_path = path, font_size = 120\<rparr> \<lparr>font_path = path, font_size = 60\<rparr>
             font_color (Some a) =
           ((236, a),
            [\<lparr>dc_xy = (100, 100), dc_text = ''Title'',
               dc_font = \<lparr>font_path = path, font_size = 60\<rparr>, dc_fill = font_color\<rparr>,
              \<lparr>dc_xy = (100, 168), dc_text = ''Hello world'',
               dc_font = \<lparr>font_path = path, font_size = 60\<rparr>, dc_fill = font_color\<rparr>],
            h(a := insert ''Hello world'' (insert ''Title'' (h a))))"
    using assms(7,8)
    by (simp add: draw_text_def render_lines_def render_init_def draw_line_def strip_def
          startswith_def endswith_def isspace_def)
  from assms(1) a d show ?thesis
    by (simp add: text_to_handwriting_def load_font_def)
qed

theorem heading_drawn_with_body_font_witness:
  "saved (text_to_handwriting (\<lambda>p. True) (fixed_pitch 1) (\<lambda>a. {}) (''## Title'' @ [NL] @ ''Hello world'')
            ''fonts/Satisfy-Regular.ttf'' ''handwriting_output.jpg'' ''#000000'' (Some 2)) =
     Some (''handwriting_output.jpg'',
       [\<lparr>dc_xy = (100, 100), dc_text = ''Title'',
         dc_font = \<lparr>font_path = ''fonts/Satisfy-Regular.ttf'', font_size = 60\<rparr>, dc_fill = ''#000000''\<rparr>,
        \<lparr>dc_xy = (100, 168), dc_text = ''Hello world'',
         dc_font = \<lparr>font_path = ''fonts/Satisfy-Regular.ttf'', font_size = 60\<rparr>, dc_fill = ''#000000''\<rparr>])"
  using heading_drawn_with_body_font [of "\<lambda>p. True" "''fonts/Satisfy-Regular.ttf''" "fixed_pitch 1"
      "\<lambda>a. {}" 2 "''handwriting_output.jpg''" "''#000000''"]
  by (simp add: fixed_pitch_def bbox_width_def bbox_height_def)

subsection \<open>C2: a single word wider than the page\<close>

text \<open>
  Claim C2. A single word wider than \<open>max_width\<close> is returned unsplit on a line of its own,
  but the wrapper first flushes the line it had before the word, which is empty: the result
  is an empty line followed by the word. The two other places that append the current line
  test \<open>if current_line\<close> first; the overflow branch does not.
\<close>

theorem oversized_word_after_blank_line:
  assumes "is_word w" and "bbox_width (m font w) > max_width"
  shows "split_text_into_lines m w max_width font = NL # w"
  using assms(2) word_facts [OF assms(1)]
  by (simp add: split_text_into_lines_def wrap_paragraph_def wrap_word_def)

theorem oversized_word_after_blank_line_witness:
  "is_word ''Pneumonoultramicroscopicsilicovolcanoconiosis''
   \<and> bbox_width (fixed_pitch 1 (Some \<lparr>font_path = ''fonts/Satisfy-Regular.ttf'', font_size = 60\<rparr>)
        ''Pneumonoultramicroscopicsilicovolcanoconiosis'') > 1800
   \<and> split_text_into_lines (fixed_pitch 1) ''Pneumonoultramicroscopicsilicovolcanoconiosis'' 1800
        (Some \<lparr>font_path = ''fonts/Satisfy-Regular.ttf'', font_size = 60\<rparr>)
      = NL # ''Pneumonoultramicroscopicsilicovolcanoconiosis''"
proof -
  have a: "is_word ''Pneumonoultramicroscopicsilicovolcanoconiosis''"
    by (simp add: is_word_def isspace_def)
  have b: "bbox_width (fixed_pitch 1 (Some \<lparr>font_path = ''fonts/Satisfy-Regular.ttf'', font_size = 60\<rparr>)
        ''Pneumonoultramicroscopicsilicovolcanoconiosis'') > 1800"
    by (simp add: fixed_pitch_def bbox_width_def)
  from a b oversized_word_after_blank_line [where m = "fixed_pitch 1" and max_width = 1800
      and font = "Some \<lparr>font_path = ''fonts/Satisfy-Regular.ttf'', font_size = 60\<rparr>", OF a b]
  show ?thesis by blast
qed

subsection \<open>C3: empty raw text\<close>

text \<open>
  Claim C3 as stated fails on the code: \<open>text_to_handwriting\<close> has no test for an empty
  text. Called with the empty text and a font that loads, it runs the adapter, which succeeds
  at size 60 with the empty formatted text, and then reports the message of a layout failure.
\<close>

theorem empty_text_reported_as_format_failure:
  "adjust_font_size (\<lambda>p. True) (fixed_pitch 1) [] ''fonts/Satisfy-Regular.ttf'' 2000 3000
     = (([], Some \<lparr>font_path = ''fonts/Satisfy-Regular.ttf'', font_size = 60\<rparr>), [])
   \<and> text_to_handwriting (\<lambda>p. True) (fixed_pitch 1) (\<lambda>a. {}) [] ''fonts/Satisfy-Regular.ttf''
        ''handwriting_output.jpg'' ''#000000'' None
     = \<lparr>returned = None, st_errors = [''Could not format the text to fit the page.''],
        saved = None, store_after = (\<lambda>a. {})\<rparr>"
proof -
  have "adjust_font_size (\<lambda>p. True) (fixed_pitch 1) [] ''fonts/Satisfy-Regular.ttf'' 2000 3000
     = (([], Some \<lparr>font_path = ''fonts/Satisfy-Regular.ttf'', font_size = 60\<rparr>), [])"
    by (rule adjust_empty_text_at_60) (simp_all add: fixed_pitch_def bbox_width_def bbox_height_def)
  then show ?thesis
    by (simp add: text_to_handwriting_def load_font_def could_not_format_def)
qed

text \<open>
  Claim C3 as it holds on the code. The empty text is rejected by the shell, under its
  convert button, with the message \<open>Please enter text or upload a text file.\<close>, before the composer
  is called. The composer itself, called with the empty text and a font that loads, reports
  \<open>Could not format the text to fit the page.\<close>, returns \<open>None\<close> and saves no image, for
  every metric; where the empty line fits at size 60 the adapter has returned the empty
  formatted text with the font of size 60.
\<close>

theorem empty_text_rejected_by_shell:
  "shell_run avail m h a [] path font_color True = Some (Rejected please_enter_text)
   \<and> (avail path \<longrightarrow>
        text_to_handwriting avail m h [] path output_path font_color previous_texts =
          \<lparr>returned = None, st_errors = [could_not_format], saved = None, store_after = h\<rparr>)
   \<and> (avail path \<and> bbox_width (m (Some \<lparr>font_path = path, font_size = 60\<rparr>) []) \<le> 1800
        \<and> bbox_height (m (Some \<lparr>font_path = path, font_size = 60\<rparr>) []) \<le> 2800 \<longrightarrow>
        adjust_font_size avail m [] path 2000 3000 =
          (([], Some \<lparr>font_path = path, font_size = 60\<rparr>), []))"
proof (intro conjI impI)
  show "shell_run avail m h a [] path font_color True = Some (Rejected please_enter_text)"
    by (simp add: shell_run_def convert_button_def)
next
  assume "avail path"
  then show "text_to_handwriting avail m h [] path output_path font_color previous_texts =
          \<lparr>returned = None, st_errors = [could_not_format], saved = None, store_after = h\<rparr>"
    by (rule composer_reports_empty_format) (simp add: adjust_font_size_def adjust_from_empty_text)
next
  assume "avail path \<and> bbox_width (m (Some \<lparr>font_path = path, font_size = 60\<rparr>) []) \<le> 1800
        \<and> bbox_height (m (Some \<lparr>font_path = path, font_size = 60\<rparr>) []) \<le> 2800"
  then show "adjust_font_size avail m [] path 2000 3000 =
          (([], Some \<lparr>font_path = path, font_size = 60\<rparr>), [])"
    by (intro adjust_empty_text_at_60) simp_all
qed

theorem empty_text_rejected_by_shell_witness:
  "shell_run (\<lambda>p. True) (fixed_pitch 1) (\<lambda>a. {}) 2 [] ''fonts/Satisfy-Regular.ttf'' ''#000000'' True
     = Some (Rejected ''Please enter text or upload a text file.'')
   \<and> text_to_handwriting (\<lambda>p. True) (fixed_pitch 1) (\<lambda>a. {}) [] ''fonts/Satisfy-Regular.ttf''
        ''handwriting_output.jpg'' ''#000000'' (Some 2)
     = \<lparr>returned = None, st_errors = [''Could not format the text to fit the page.''],
        saved = None, store_after = (\<lambda>a. {})\<rparr>
   \<and> adjust_font_size (\<lambda>p. True) (fixed_pitch 1) [] ''fonts/Satisfy-Regular.ttf'' 2000 3000
     = (([], Some \<lparr>font_path = ''fonts/Satisfy-Regular.ttf'', font_size = 60\<rparr>), [])"
  using empty_text_rejected_by_shell [of "\<lambda>p. True" "fixed_pitch 1" "\<lambda>a. {}" 2
      "''fonts/Satisfy-Regular.ttf''" "''#000000''" "''handwriting_output.jpg''" "Some 2"]
  by (simp add: please_enter_text_def could_not_format_def fixed_pitch_def bbox_width_def
        bbox_height_def)

subsection \<open>C4: the wrapper keeps the words\<close>

text \<open>
  Claim C4 as stated fails on a heading paragraph, whose marker \<open>##\<close> the wrapper removes
  on purpose.
\<close>

theorem wrap_drops_heading_marker:
  "split_ws (split_text_into_lines (fixed_pitch 1) ''## Title'' 1800
       (Some \<lparr>font_path = ''fonts/Satisfy-Regular.ttf'', font_size = 60\<rparr>)) = [''Title'']
   \<and> split_ws ''## Title'' = [''##'', ''Title'']"
  by (simp add: wrap_eval)

text \<open>
  Claim C4 as it holds on the code. The paragraphs of a raw text are the pieces between its
  newlines, and the words of the text are the words of its paragraphs, in order (lemma
  \<open>split_ws_paragraphs\<close>). For every raw text in which every non-blank paragraph other than
  the last non-blank one is a heading, the whitespace-delimited words of the wrapper's
  output are exactly the words of the text in their order, less the marker word \<open>##\<close> that
  opens each heading paragraph. This covers a text of one paragraph, a heading followed by
  its body, and any number of headings and blank lines before one body paragraph, whatever
  the metric and however many line breaks the wrapper introduces.

  The texts in which a body paragraph is followed by a further non-blank paragraph are not
  part of the statement: on them the code emits the last line of the body paragraph a
  second time (lemma \<open>wrap_repeats_words\<close>), a defect of the flush at the end of a
  paragraph and not a property the wrapper is meant to have.
\<close>

theorem wrap_preserves_words:
  assumes "\<forall>p\<in>set (butlast (filter (\<lambda>p. strip p \<noteq> []) (split_on NL s))). startswith p ''## ''"
  shows "split_ws (split_text_into_lines m s max_width font) =
           concat (map (\<lambda>p. if startswith p ''## '' then tl (split_ws p) else split_ws p)
                       (split_on NL s))"
  using fold_wrap_paragraph_words [OF assms, of m font max_width "[]"]
  by (simp add: split_text_into_lines_def split_ws_join_NL)

theorem wrap_preserves_words_witness:
  "split_on NL (''## My notes'' @ [NL] @ [NL] @ ''Hello  world again'')
      = [''## My notes'', [], ''Hello  world again'']
   \<and> split_text_into_lines (fixed_pitch 1)
        (''## My notes'' @ [NL] @ [NL] @ ''Hello  world again'') 400
        (Some \<lparr>font_path = ''fonts/Satisfy-Regular.ttf'', font_size = 60\<rparr>)
      = ''My notes'' @ [NL] @ [NL] @ ''Hello'' @ [NL] @ ''world'' @ [NL] @ ''again''
   \<and> split_ws (split_text_into_lines (fixed_pitch 1)
        (''## My notes'' @ [NL] @ [NL] @ ''Hello  world again'') 400
        (Some \<lparr>font_path = ''fonts/Satisfy-Regular.ttf'', font_size = 60\<rparr>))
      = [''My'', ''notes'', ''Hello'', ''world'', ''again'']"
proof -
  let ?s = "''## My notes'' @ [NL] @ [NL] @ ''Hello  world again''"
  let ?f = "Some \<lparr>font_path = ''fonts/Satisfy-Regular.ttf'', font_size = 60\<rparr>"
  have a: "split_on NL ?s = [''## My notes'', [], ''Hello  world again'']"
    by simp
  have b: "\<forall>p\<in>set (butlast (filter (\<lambda>p. strip p \<noteq> []) (split_on NL ?s))). startswith p ''## ''"
    unfolding a by (simp add: strip_def isspace_def startswith_def)
  have c: "split_text_into_lines (fixed_pitch 1) ?s 400 ?f
      = ''My notes'' @ [NL] @ [NL] @ ''Hello'' @ [NL] @ ''world'' @ [NL] @ ''again''"
    by (simp add: wrap_eval)
  have d: "concat (map (\<lambda>p. if startswith p ''## '' then tl (split_ws p) else split_ws p)
                       (split_on NL ?s)) = [''My'', ''notes'', ''Hello'', ''world'', ''again'']"
    unfolding a by (simp add: startswith_def split_ws_def isspace_def)
  have e: "split_ws (split_text_into_lines (fixed_pitch 1) ?s 400 ?f)
      = [''My'', ''notes'', ''Hello'', ''world'', ''again'']"
    using wrap_preserves_words [of ?s "fixed_pitch 1" 400 ?f, OF b] d by (rule trans)
  from a c e show ?thesis by (intro conjI)
qed

subsection \<open>C5: a short text without newlines\<close>

text \<open>
  Claim C5 as stated fails on a text whose words are not separated by single blanks: the
  wrapper rebuilds the line from the words.
\<close>

theorem wrap_changes_spacing:
  "NL \<notin> set ''a  b''
   \<and> bbox_width (fixed_pitch 1 (Some \<lparr>font_path = ''fonts/Satisfy-Regular.ttf'', font_size = 60\<rparr>) ''a  b'') < 1800
   \<and> split_text_into_lines (fixed_pitch 1) ''a  b'' 1800
        (Some \<lparr>font_path = ''fonts/Satisfy-Regular.ttf'', font_size = 60\<rparr>) = ''a b''
   \<and> ''a b'' \<noteq> ''a  b''"
  by (simp add: wrap_eval)

text \<open>
  Claim C5 as it holds on the code. For a raw text without a newline that does not start
  with the heading marker and all of whose candidate lines (the first \<open>k\<close> words joined by
  single blanks) measure at most \<open>max_width\<close>, the wrapper returns the words of the text
  joined by single blanks, on one line; this is the text itself when the text is already of
  that form.
\<close>

theorem wrap_short_text:
  assumes "NL \<notin> set text" and "\<not> startswith text ''## ''"
    and "\<forall>k. 0 < k \<and> k \<le> length (split_ws text) \<longrightarrow>
           bbox_width (m font (join '' '' (take k (split_ws text)))) \<le> max_width"
  shows "split_text_into_lines m text max_width font = join '' '' (split_ws text)
         \<and> (join '' '' (split_ws text) = text \<longrightarrow>
              split_text_into_lines m text max_width font = text)"
  using assms wrap_fitting_paragraph [of "text" m font max_width] by simp

theorem wrap_short_text_witness:
  "NL \<notin> set ''Hello world'' \<and> \<not> startswith ''Hello world'' ''## ''
   \<and> join '' '' (split_ws ''Hello world'') = ''Hello world''
   \<and> split_text_into_lines (fixed_pitch 1) ''Hello world'' 1800
        (Some \<lparr>font_path = ''fonts/Satisfy-Regular.ttf'', font_size = 60\<rparr>) = ''Hello world''"
proof -
  have a: "NL \<notin> set ''Hello world''" by simp
  have b: "\<not> startswith ''Hello world'' ''## ''" by (simp add: startswith_def)
  have ws: "split_ws ''Hello world'' = [''Hello'', ''world'']" by (simp add: split_ws_def isspace_def)
  have c: "\<forall>k. 0 < k \<and> k \<le> length (split_ws ''Hello world'') \<longrightarrow>
           bbox_width (fixed_pitch 1 (Some \<lparr>font_path = ''fonts/Satisfy-Regular.ttf'', font_size = 60\<rparr>)
              (join '' '' (take k (split_ws ''Hello world'')))) \<le> 1800"
  proof (intro allI impI)
    fix k :: nat
    assume "0 < k \<and> k \<le> length (split_ws ''Hello world'')"
    then have "k = 1 \<or> k = 2" by (auto simp: ws)
    then show "bbox_width (fixed_pitch 1 (Some \<lparr>font_path = ''fonts/Satisfy-Regular.ttf'', font_size = 60\<rparr>)
              (join '' '' (take k (split_ws ''Hello world'')))) \<le> 1800"
      by (auto simp: ws fixed_pitch_def bbox_width_def)
  qed
  have d: "join '' '' (split_ws ''Hello world'') = ''Hello world''" unfolding ws by simp
  from a b d wrap_short_text [where m = "fixed_pitch 1" and max_width = 1800
      and font = "Some \<lparr>font_path = ''fonts/Satisfy-Regular.ttf'', font_size = 60\<rparr>", OF a b c]
  show ?thesis by simp
qed

subsection \<open>C6: the search of the font-size adapter\<close>

text \<open>
  Claim C6. The adapter tries the sizes 60, 59, ... down to 11 and returns at the first one
  that fits: if \<open>s\<close> fits and no larger size up to 60 does, the result is the text wrapped at
  \<open>s\<close> with the font of size \<open>s\<close>. If no size from 60 down to 11 fits, the result is the empty
  text with no font, and the composer (whose font loads) then reports
  \<open>Could not format the text to fit the page.\<close>, returns \<open>None\<close> and saves no image.
\<close>

theorem adjust_font_size_search:
  "(10 < s \<and> s \<le> 60 \<and> fits_at avail m raw path mw mh s
      \<and> (\<forall>u. s < u \<and> u \<le> 60 \<longrightarrow> \<not> fits_at avail m raw path mw mh u)
     \<longrightarrow> fst (adjust_font_size avail m raw path mw mh) =
           (split_text_into_lines m raw (mw - 200) (fst (load_font avail path s)),
            fst (load_font avail path s)))
   \<and> ((\<forall>u. 10 < u \<and> u \<le> 60 \<longrightarrow> \<not> fits_at avail m raw path mw mh u)
     \<longrightarrow> fst (adjust_font_size avail m raw path mw mh) = ([], None))
   \<and> (avail path \<and> (\<forall>u. 10 < u \<and> u \<le> 60 \<longrightarrow> \<not> fits_at avail m raw path 2000 3000 u)
     \<longrightarrow> text_to_handwriting avail m h raw path output_path font_color previous_texts =
           \<lparr>returned = None, st_errors = [could_not_format], saved = None, store_after = h\<rparr>)"
proof (intro conjI impI)
  assume "10 < s \<and> s \<le> 60 \<and> fits_at avail m raw path mw mh s
      \<and> (\<forall>u. s < u \<and> u \<le> 60 \<longrightarrow> \<not> fits_at avail m raw path mw mh u)"
  then show "fst (adjust_font_size avail m raw path mw mh) =
           (split_text_into_lines m raw (mw - 200) (fst (load_font avail path s)),
            fst (load_font avail path s))"
    unfolding adjust_font_size_def by (intro adjust_from_first_fit) simp_all
next
  assume "\<forall>u. 10 < u \<and> u \<le> 60 \<longrightarrow> \<not> fits_at avail m raw path mw mh u"
  then show "fst (adjust_font_size avail m raw path mw mh) = ([], None)"
    unfolding adjust_font_size_def by (rule adjust_from_none)
next
  assume a: "avail path \<and> (\<forall>u. 10 < u \<and> u \<le> 60 \<longrightarrow> \<not> fits_at avail m raw path 2000 3000 u)"
  then have "fst (adjust_font_size avail m raw path 2000 3000) = ([], None)"
    unfolding adjust_font_size_def by (intro adjust_from_none) simp
  then have "fst (fst (adjust_font_size avail m raw path 2000 3000)) = []" by simp
  with a show "text_to_handwriting avail m h raw path output_path font_color previous_texts =
           \<lparr>returned = None, st_errors = [could_not_format], saved = None, store_after = h\<rparr>"
    by (intro composer_reports_empty_format) simp_all
qed

theorem adjust_font_size_search_witness:
  "fits_at (\<lambda>p. True) (fixed_pitch 1) ''Hello world'' ''fonts/Satisfy-Regular.ttf'' 2000 3000 60
   \<and> fst (adjust_font_size (\<lambda>p. True) (fixed_pitch 1) ''Hello world'' ''fonts/Satisfy-Regular.ttf'' 2000 3000)
       = (''Hello world'', Some \<lparr>font_path = ''fonts/Satisfy-Regular.ttf'', font_size = 60\<rparr>)
   \<and> \<not> fits_at (\<lambda>p. True) (fixed_pitch 200) ''x'' ''fonts/Satisfy-Regular.ttf'' 2000 3000 60
   \<and> \<not> fits_at (\<lambda>p. True) (fixed_pitch 200) ''x'' ''fonts/Satisfy-Regular.ttf'' 2000 3000 11
   \<and> fst (adjust_font_size (\<lambda>p. True) (fixed_pitch 200) ''x'' ''fonts/Satisfy-Regular.ttf'' 2000 3000)
       = ([], None)
   \<and> text_to_handwriting (\<lambda>p. True) (fixed_pitch 200) (\<lambda>a. {}) ''x'' ''fonts/Satisfy-Regular.ttf''
        ''handwriting_output.jpg'' ''#000000'' None
       = \<lparr>returned = None, st_errors = [could_not_format], saved = None, store_after = (\<lambda>a. {})\<rparr>"
proof -
  have w: "split_text_into_lines (fixed_pitch 1) ''Hello world'' 1800
             (Some \<lparr>font_path = ''fonts/Satisfy-Regular.ttf'', font_size = 60\<rparr>) = ''Hello world''"
    by (simp add: wrap_eval)
  have n: "\<forall>u. 10 < u \<and> u \<le> 60 \<longrightarrow>
         \<not> fits_at (\<lambda>p. True) (fixed_pitch 200) ''x'' ''fonts/Satisfy-Regular.ttf'' 2000 3000 u"
    using wide_pitch_never_fits by blast
  have v: "\<forall>u. (60::int) < u \<and> u \<le> 60 \<longrightarrow>
         \<not> fits_at (\<lambda>p. True) (fixed_pitch 1) ''Hello world'' ''fonts/Satisfy-Regular.ttf'' 2000 3000 u"
    by auto
  have e1: "fst (adjust_font_size (\<lambda>p. True) (fixed_pitch 1) ''Hello world''
                  ''fonts/Satisfy-Regular.ttf'' 2000 3000)
       = (''Hello world'', Some \<lparr>font_path = ''fonts/Satisfy-Regular.ttf'', font_size = 60\<rparr>)"
    using fixed_pitch_hello_fits v w
      adjust_font_size_search [of 60 "\<lambda>p. True" "fixed_pitch 1" "''Hello world''"
        "''fonts/Satisfy-Regular.ttf''" 2000 3000, THEN conjunct1]
    by (simp add: load_font_def)
  have e2: "fst (adjust_font_size (\<lambda>p. True) (fixed_pitch 200) ''x''
                  ''fonts/Satisfy-Regular.ttf'' 2000 3000) = ([], None)"
    using n
      adjust_font_size_search [of 60 "\<lambda>p. True" "fixed_pitch 200" "''x''"
        "''fonts/Satisfy-Regular.ttf''" 2000 3000, THEN conjunct2, THEN conjunct1]
    by blast
  have e3: "text_to_handwriting (\<lambda>p. True) (fixed_pitch 200) (\<lambda>a. {}) ''x''
        ''fonts/Satisfy-Regular.ttf'' ''handwriting_output.jpg'' ''#000000'' None
       = \<lparr>returned = None, st_errors = [could_not_format], saved = None, store_after = (\<lambda>a. {})\<rparr>"
    using n
      adjust_font_size_search [of 60 "\<lambda>p. True" "fixed_pitch 200" "''x''"
        "''fonts/Satisfy-Regular.ttf''" 2000 3000 "\<lambda>a. {}" "''handwriting_output.jpg''"
        "''#000000''" None, THEN conjunct2, THEN conjunct2]
    by blast
  from fixed_pitch_hello_fits n e1 e2 e3 show ?thesis by simp
qed

subsection \<open>C7: duplicate lines are skipped\<close>

text \<open>
  Claim C7 as stated fails for heading lines: the heading branch of the renderer comes before
  the comparison with the previous line, so a heading that is not in the set is drawn even
  when it equals the preceding drawn line after trimming.
\<close>

theorem heading_repeated_after_trimming:
  "strip ''## Notes'' = strip ''## Notes ''
   \<and> draw_text (\<lambda>a. {}) [] (''## Notes '' @ [NL] @ ''## Notes'') 100 100
        \<lparr>font_path = ''fonts/Satisfy-Regular.ttf'', font_size = 120\<rparr>
        \<lparr>font_path = ''fonts/Satisfy-Regular.ttf'', font_size = 60\<rparr> ''#000000'' (Some 2)
     = ((364, 2),
        [\<lparr>dc_xy = (100, 100), dc_text = ''Notes '',
          dc_font = \<lparr>font_path = ''fonts/Satisfy-Regular.ttf'', font_size = 120\<rparr>,
          dc_fill = ''#000000''\<rparr>,
         \<lparr>dc_xy = (100, 232), dc_text = ''Notes'',
          dc_font = \<lparr>font_path = ''fonts/Satisfy-Regular.ttf'', font_size = 120\<rparr>,
          dc_fill = ''#000000''\<rparr>],
        (\<lambda>a. {})(2 := {''## Notes'', ''## Notes ''}))"
  by (simp add: render_eval)

text \<open>
  Claim C7 as it holds on the code. A non-empty line that is already in the set, or that is
  not a heading and equals after trimming the line drawn last, is skipped: the state of the
  pass after it (image, cursor, set, previous line) is the state before it. In particular,
  for two consecutive identical normal lines that are not in the set, the call draws the
  line once, advances the cursor once and adds the line to the set.
\<close>

theorem duplicate_line_skipped:
  "(strip line \<noteq> []
      \<and> (line \<in> sets (render_lines x hf f c d pre st0) d
          \<or> (\<not> startswith line ''## ''
              \<and> strip (previous_line (render_lines x hf f c d pre st0)) = strip line))
     \<longrightarrow> render_lines x hf f c d (pre @ [line]) st0 = render_lines x hf f c d pre st0)
   \<and> (strip line \<noteq> [] \<and> NL \<notin> set line \<and> \<not> startswith line ''## ''
      \<and> \<not> (startswith line ''**'' \<and> endswith line ''**'') \<and> line \<notin> h a
     \<longrightarrow> draw_text h cv (line @ [NL] @ line) x y hf f c (Some a) =
           ((y + (font_size f + 8), a),
            cv @ [\<lparr>dc_xy = (x, y), dc_text = line, dc_font = f, dc_fill = c\<rparr>],
            h(a := insert line (h a))))"
proof (intro conjI impI)
  assume "strip line \<noteq> []
      \<and> (line \<in> sets (render_lines x hf f c d pre st0) d
          \<or> (\<not> startswith line ''## ''
              \<and> strip (previous_line (render_lines x hf f c d pre st0)) = strip line))"
  then show "render_lines x hf f c d (pre @ [line]) st0 = render_lines x hf f c d pre st0"
    unfolding render_lines_snoc by (intro draw_line_skip) simp_all
next
  assume a: "strip line \<noteq> [] \<and> NL \<notin> set line \<and> \<not> startswith line ''## ''
      \<and> \<not> (startswith line ''**'' \<and> endswith line ''**'') \<and> line \<notin> h a"
  then have "split_on NL (line @ NL # line) = [line, line]"
    by (simp add: split_on_snoc split_on_no_sep)
  moreover from a have "strip [] \<noteq> strip line" by (simp add: strip_def)
  ultimately show "draw_text h cv (line @ [NL] @ line) x y hf f c (Some a) =
           ((y + (font_size f + 8), a),
            cv @ [\<lparr>dc_xy = (x, y), dc_text = line, dc_font = f, dc_fill = c\<rparr>],
            h(a := insert line (h a)))"
    using a by (auto simp: draw_text_def render_lines_def render_init_def draw_line_def)
qed

theorem duplicate_line_skipped_witness:
  "render_lines 100 \<lparr>font_path = ''fonts/Satisfy-Regular.ttf'', font_size = 120\<rparr>
       \<lparr>font_path = ''fonts/Satisfy-Regular.ttf'', font_size = 60\<rparr> ''#000000'' 2
       ([''Dear diary''] @ [''Dear diary  '']) (render_init (\<lambda>a. {}) [] 100)
     = render_lines 100 \<lparr>font_path = ''fonts/Satisfy-Regular.ttf'', font_size = 120\<rparr>
       \<lparr>font_path = ''fonts/Satisfy-Regular.ttf'', font_size = 60\<rparr> ''#000000'' 2
       [''Dear diary''] (render_init (\<lambda>a. {}) [] 100)
   \<and> draw_text (\<lambda>a. {}) [] (''Dear diary'' @ [NL] @ ''Dear diary'') 100 100
        \<lparr>font_path = ''fonts/Satisfy-Regular.ttf'', font_size = 120\<rparr>
        \<lparr>font_path = ''fonts/Satisfy-Regular.ttf'', font_size = 60\<rparr> ''#000000'' (Some 2)
     = ((168, 2),
        [\<lparr>dc_xy = (100, 100), dc_text = ''Dear diary'',
          dc_font = \<lparr>font_path = ''fonts/Satisfy-Regular.ttf'', font_size = 60\<rparr>,
          dc_fill = ''#000000''\<rparr>],
        (\<lambda>a. {})(2 := {''Dear diary''}))"
proof -
  have p: "strip ''Dear diary  '' \<noteq> []
      \<and> (''Dear diary  '' \<in> sets (render_lines 100 \<lparr>font_path = ''fonts/Satisfy-Regular.ttf'', font_size = 120\<rparr>
             \<lparr>font_path = ''fonts/Satisfy-Regular.ttf'', font_size = 60\<rparr> ''#000000'' 2
             [''Dear diary''] (render_init (\<lambda>a. {}) [] 100)) 2
          \<or> (\<not> startswith ''Dear diary  '' ''## ''
              \<and> strip (previous_line (render_lines 100 \<lparr>font_path = ''fonts/Satisfy-Regular.ttf'', font_size = 120\<rparr>
             \<lparr>font_path = ''fonts/Satisfy-Regular.ttf'', font_size = 60\<rparr> ''#000000'' 2
             [''Dear diary''] (render_init (\<lambda>a. {}) [] 100))) = strip ''Dear diary  ''))"
    by (simp add: render_eval)
  have q: "strip ''Dear diary'' \<noteq> [] \<and> NL \<notin> set ''Dear diary'' \<and> \<not> startswith ''Dear diary'' ''## ''
      \<and> \<not> (startswith ''Dear diary'' ''**'' \<and> endswith ''Dear diary'' ''**'')
      \<and> ''Dear diary'' \<notin> (\<lambda>a. {}) (2::nat)"
    by (simp add: render_eval)
  note t = duplicate_line_skipped [of "''Dear diary  ''" 100
      "\<lparr>font_path = ''fonts/Satisfy-Regular.ttf'', font_size = 120\<rparr>"
      "\<lparr>font_path = ''fonts/Satisfy-Regular.ttf'', font_size = 60\<rparr>" "''#000000''" 2
      "[''Dear diary'']" "render_init (\<lambda>a. {}) [] 100"]
  note u = duplicate_line_skipped [where line = "''Dear diary''" and x = 100
      and hf = "\<lparr>font_path = ''fonts/Satisfy-Regular.ttf'', font_size = 120\<rparr>"
      and f = "\<lparr>font_path = ''fonts/Satisfy-Regular.ttf'', font_size = 60\<rparr>" and c = "''#000000''"
      and h = "\<lambda>a. {}" and a = 2 and cv = "[]" and y = 100]
  from t [THEN conjunct1, rule_format, OF p] u [THEN conjunct2, rule_format, OF q]
  show ?thesis by simp
qed

subsection \<open>C8: the fit check is monotonic in the height\<close>

text \<open>
  Claim C8. A text that fits under the height \<open>h\<close> with a font and a width bound fits under
  every larger height \<open>h'\<close> with the same font and width bound.
\<close>

theorem text_fits_on_page_mono:
  "text_fits_on_page m t f w h \<Longrightarrow> h < h' \<Longrightarrow> text_fits_on_page m t f w h'"
  unfolding text_fits_on_page_def by (erule fits_from_mono) simp

theorem text_fits_on_page_mono_witness:
  "text_fits_on_page (fixed_pitch 1) (''Title'' @ [NL] @ ''Hello world'')
      (Some \<lparr>font_path = ''fonts/Satisfy-Regular.ttf'', font_size = 60\<rparr>) 1800 128
   \<and> (128 :: int) < 2800
   \<and> text_fits_on_page (fixed_pitch 1) (''Title'' @ [NL] @ ''Hello world'')
      (Some \<lparr>font_path = ''fonts/Satisfy-Regular.ttf'', font_size = 60\<rparr>) 1800 2800"
proof -
  have a: "text_fits_on_page (fixed_pitch 1) (''Title'' @ [NL] @ ''Hello world'')
      (Some \<lparr>font_path = ''fonts/Satisfy-Regular.ttf'', font_size = 60\<rparr>) 1800 128"
    by (simp add: text_fits_on_page_def fixed_pitch_def bbox_width_def bbox_height_def)
  have b: "(128 :: int) < 2800" by simp
  from a b text_fits_on_page_mono [OF a b] show ?thesis by blast
qed

subsection \<open>C9: the cursor never moves up\<close>

text \<open>
  Claim C9. With fonts of non-negative size (every font that loads has a positive size),
  the cursor after each line of a pass is at or below the cursor before it. The advance is
  the body size plus 8 for an empty line, 0 for a skipped line, the heading size plus 12 for
  a heading that is drawn and the body size plus 8 for another line that is drawn. Hence
  the cursor at the end of a pass, which \<open>draw_text\<close> returns, is at or below its start.
\<close>

theorem cursor_nondecreasing:
  assumes "0 \<le> font_size f" and "0 \<le> font_size hf"
  shows "cur_y (render_lines x hf f c d pre st0) \<le> cur_y (render_lines x hf f c d (pre @ [line]) st0)
       \<and> cur_y (render_lines x hf f c d (pre @ [line]) st0) - cur_y (render_lines x hf f c d pre st0) =
           (if strip line = [] then font_size f + 8
            else if canvas (render_lines x hf f c d (pre @ [line]) st0)
                    = canvas (render_lines x hf f c d pre st0) then 0
            else if startswith line ''## '' then font_size hf + 12
            else font_size f + 8)
       \<and> cur_y st0 \<le> cur_y (render_lines x hf f c d ls st0)
       \<and> y \<le> fst (fst (draw_text h cv formatted_text x y hf f c previous_lines))"
proof (intro conjI)
  show adv: "cur_y (render_lines x hf f c d (pre @ [line]) st0) - cur_y (render_lines x hf f c d pre st0) =
           (if strip line = [] then font_size f + 8
            else if canvas (render_lines x hf f c d (pre @ [line]) st0)
                    = canvas (render_lines x hf f c d pre st0) then 0
            else if startswith line ''## '' then font_size hf + 12
            else font_size f + 8)"
    unfolding render_lines_snoc by (rule draw_line_advance)
  from assms adv
  show "cur_y (render_lines x hf f c d pre st0) \<le> cur_y (render_lines x hf f c d (pre @ [line]) st0)"
    by (simp split: if_splits)
  from assms show "cur_y st0 \<le> cur_y (render_lines x hf f c d ls st0)"
    by (rule render_lines_cursor)
  have "cur_y (render_init h cv y) \<le>
        cur_y (render_lines x hf f c
                 (case previous_lines of None \<Rightarrow> draw_text_default | Some a \<Rightarrow> a)
                 (split_on NL formatted_text) (render_init h cv y))"
    using assms by (rule render_lines_cursor)
  then show "y \<le> fst (fst (draw_text h cv formatted_text x y hf f c previous_lines))"
    by (simp add: draw_text_def render_init_def Let_def)
qed

theorem cursor_nondecreasing_witness:
  "(0::int) \<le> 60 \<and> (0::int) \<le> 120
   \<and> map (\<lambda>k. cur_y (render_lines 100 \<lparr>font_path = ''fonts/Satisfy-Regular.ttf'', font_size = 120\<rparr>
            \<lparr>font_path = ''fonts/Satisfy-Regular.ttf'', font_size = 60\<rparr> ''#000000'' 2
            (take k [''## Monday'', [], ''Dear diary'', ''Dear diary'', ''**today**''])
            (render_init (\<lambda>a. {}) [] 100))) [0, 1, 2, 3, 4, 5]
      = [100, 232, 300, 368, 368, 436]"
proof -
  have a: "0 \<le> font_size \<lparr>font_path = ''fonts/Satisfy-Regular.ttf'', font_size = 60\<rparr>" by simp
  have b: "0 \<le> font_size \<lparr>font_path = ''fonts/Satisfy-Regular.ttf'', font_size = 120\<rparr>" by simp
  note t = cursor_nondecreasing [OF a b, of 100 "''#000000''" 2
      "[''## Monday'', [], ''Dear diary'']" "render_init (\<lambda>a. {}) [] 100" "''Dear diary''"]
  have "map (\<lambda>k. cur_y (render_lines 100 \<lparr>font_path = ''fonts/Satisfy-Regular.ttf'', font_size = 120\<rparr>
            \<lparr>font_path = ''fonts/Satisfy-Regular.ttf'', font_size = 60\<rparr> ''#000000'' 2
            (take k [''## Monday'', [], ''Dear diary'', ''Dear diary'', ''**today**''])
            (render_init (\<lambda>a. {}) [] 100))) [0, 1, 2, 3, 4, 5]
      = [100, 232, 300, 368, 368, 436]"
    by (simp add: render_eval)
  with t show ?thesis by simp
qed

subsection \<open>C10: the set of drawn lines is updated in place\<close>

text \<open>
  Claim C10. The set that \<open>draw_text\<close> returns is the object it was given, or the default
  object of the function when the argument is omitted. After the call this object holds a
  superset of what it held, no other set has changed, and every line for which the call drew
  is in it. When the argument is omitted, a non-empty line that the default set holds after
  the call is skipped by a later call that omits the argument too: appending the line to the
  text of the later call changes nothing. \<open>text_to_handwriting\<close> with the argument omitted
  hands its own default set to \<open>draw_text\<close> and returns it, grown.
\<close>

theorem drawn_set_updated_in_place:
  assumes "draw_text h cv t x y hf f c prev = ((y', d), cv', h')"
  shows "d = (case prev of None \<Rightarrow> draw_text_default | Some a \<Rightarrow> a)
       \<and> h d \<subseteq> h' d
       \<and> (\<forall>a. a \<noteq> d \<longrightarrow> h' a = h a)
       \<and> (\<forall>pre l post. split_on NL t = pre @ l # post
             \<and> canvas (render_lines x hf f c d (pre @ [l]) (render_init h cv y))
                 \<noteq> canvas (render_lines x hf f c d pre (render_init h cv y))
            \<longrightarrow> l \<in> h' d)
       \<and> (prev = None \<and> l \<in> h' d \<and> strip l \<noteq> [] \<and> NL \<notin> set l
            \<longrightarrow> draw_text h' cv2 (t2 @ [NL] @ l) x2 y2 hf2 f2 c2 None
                = draw_text h' cv2 t2 x2 y2 hf2 f2 c2 None)
       \<and> (returned (text_to_handwriting avail m h raw path out col None) = Some (p, a)
            \<longrightarrow> a = text_to_handwriting_default
                \<and> h a \<subseteq> store_after (text_to_handwriting avail m h raw path out col None) a)"
proof (intro conjI allI impI)
  note r = draw_text_result [OF assms]
  show d: "d = (case prev of None \<Rightarrow> draw_text_default | Some a \<Rightarrow> a)" by (rule r(1))
  show "h d \<subseteq> h' d"
    unfolding r(2)
    using render_lines_sets_mono [of "render_init h cv y" d x hf f c d "split_on NL t"] by simp
  show "h' a = h a" if "a \<noteq> d" for a
    unfolding r(2) using that by (simp add: render_lines_sets_other)
  show "l \<in> h' d"
    if "split_on NL t = pre @ l # post
        \<and> canvas (render_lines x hf f c d (pre @ [l]) (render_init h cv y))
            \<noteq> canvas (render_lines x hf f c d pre (render_init h cv y))"
    for pre l post
  proof -
    from that have "l \<in> sets (render_lines x hf f c d (pre @ [l]) (render_init h cv y)) d"
      unfolding render_lines_snoc by (intro draw_line_drawn_in_set) simp
    moreover have "render_lines x hf f c d (split_on NL t) (render_init h cv y)
        = render_lines x hf f c d post (render_lines x hf f c d (pre @ [l]) (render_init h cv y))"
      using that render_lines_append [of x hf f c d "pre @ [l]" post] by simp
    ultimately show ?thesis
      unfolding r(2)
      using render_lines_sets_mono
        [of "render_lines x hf f c d (pre @ [l]) (render_init h cv y)" d x hf f c d post]
      by auto
  qed
  show "draw_text h' cv2 (t2 @ [NL] @ l) x2 y2 hf2 f2 c2 None
          = draw_text h' cv2 t2 x2 y2 hf2 f2 c2 None"
    if "prev = None \<and> l \<in> h' d \<and> strip l \<noteq> [] \<and> NL \<notin> set l"
  proof -
    from that d have "d = (case (None :: addr option) of None \<Rightarrow> draw_text_default | Some a \<Rightarrow> a)"
      by simp
    moreover from that have "l \<in> h' d" and "strip l \<noteq> []" and "NL \<notin> set l" by simp_all
    ultimately show ?thesis by (intro draw_text_append_known_line [where d = d])
  qed
  show "a = text_to_handwriting_default"
    if "returned (text_to_handwriting avail m h raw path out col None) = Some (p, a)"
    using composer_store [OF that] by simp
  show "h a \<subseteq> store_after (text_to_handwriting avail m h raw path out col None) a"
    if "returned (text_to_handwriting avail m h raw path out col None) = Some (p, a)"
    using composer_store [OF that] by blast
qed

theorem drawn_set_updated_in_place_witness:
  "draw_text (\<lambda>a. {}) [] ''Hello'' 100 100
      \<lparr>font_path = ''fonts/Satisfy-Regular.ttf'', font_size = 120\<rparr>
      \<lparr>font_path = ''fonts/Satisfy-Regular.ttf'', font_size = 60\<rparr> ''#000000'' None
     = ((168, draw_text_default),
        [\<lparr>dc_xy = (100, 100), dc_text = ''Hello'',
          dc_font = \<lparr>font_path = ''fonts/Satisfy-Regular.ttf'', font_size = 60\<rparr>,
          dc_fill = ''#000000''\<rparr>],
        (\<lambda>a. {})(draw_text_default := {''Hello''}))
   \<and> draw_text ((\<lambda>a. {})(draw_text_default := {''Hello''})) [] (''World'' @ [NL] @ ''Hello'') 100 100
      \<lparr>font_path = ''fonts/Satisfy-Regular.ttf'', font_size = 120\<rparr>
      \<lparr>font_path = ''fonts/Satisfy-Regular.ttf'', font_size = 60\<rparr> ''#000000'' None
     = ((168, draw_text_default),
        [\<lparr>dc_xy = (100, 100), dc_text = ''World'',
          dc_font = \<lparr>font_path = ''fonts/Satisfy-Regular.ttf'', font_size = 60\<rparr>,
          dc_fill = ''#000000''\<rparr>],
        (\<lambda>a. {})(draw_text_default := {''World'', ''Hello''}))
   \<and> returned (text_to_handwriting (\<lambda>p. True) (fixed_pitch 1) (\<lambda>a. {}) ''Hello''
        ''fonts/Satisfy-Regular.ttf'' ''handwriting_output.jpg'' ''#000000'' None)
     = Some (''handwriting_output.jpg'', text_to_handwriting_default)"
proof -
  have first: "draw_text (\<lambda>a. {}) [] ''Hello'' 100 100
      \<lparr>font_path = ''fonts/Satisfy-Regular.ttf'', font_size = 120\<rparr>
      \<lparr>font_path = ''fonts/Satisfy-Regular.ttf'', font_size = 60\<rparr> ''#000000'' None
     = ((168, draw_text_default),
        [\<lparr>dc_xy = (100, 100), dc_text = ''Hello'',
          dc_font = \<lparr>font_path = ''fonts/Satisfy-Regular.ttf'', font_size = 60\<rparr>,
          dc_fill = ''#000000''\<rparr>],
        (\<lambda>a. {})(draw_text_default := {''Hello''}))"
    by (simp add: render_eval)
  have known: "(None :: addr option) = None
      \<and> ''Hello'' \<in> ((\<lambda>a. {})(draw_text_default := {''Hello''})) draw_text_default
      \<and> strip ''Hello'' \<noteq> [] \<and> NL \<notin> set ''Hello''"
    by (simp add: strip_def isspace_def)
  have world: "draw_text ((\<lambda>a. {})(draw_text_default := {''Hello''})) [] ''World'' 100 100
      \<lparr>font_path = ''fonts/Satisfy-Regular.ttf'', font_size = 120\<rparr>
      \<lparr>font_path = ''fonts/Satisfy-Regular.ttf'', font_size = 60\<rparr> ''#000000'' None
     = ((168, draw_text_default),
        [\<lparr>dc_xy = (100, 100), dc_text = ''World'',
          dc_font = \<lparr>font_path = ''fonts/Satisfy-Regular.ttf'', font_size = 60\<rparr>,
          dc_fill = ''#000000''\<rparr>],
        (\<lambda>a. {})(draw_text_default := {''World'', ''Hello''}))"
    by (simp add: render_eval)
  have conv: "returned (text_to_handwriting (\<lambda>p. True) (fixed_pitch 1) (\<lambda>a. {}) ''Hello''
        ''fonts/Satisfy-Regular.ttf'' ''handwriting_output.jpg'' ''#000000'' None)
     = Some (''handwriting_output.jpg'', text_to_handwriting_default)"
    by (simp add: text_to_handwriting_def load_font_def adjust_font_size_def
          adjust_from.simps [of _ _ _ _ _ _ 60] text_fits_on_page_def wrap_eval render_eval)
  note t = drawn_set_updated_in_place [OF first, where l = "''Hello''" and ?t2.0 = "''World''"
      and ?cv2.0 = "[]" and ?x2.0 = 100 and ?y2.0 = 100
      and ?hf2.0 = "\<lparr>font_path = ''fonts/Satisfy-Regular.ttf'', font_size = 120\<rparr>"
      and ?f2.0 = "\<lparr>font_path = ''fonts/Satisfy-Regular.ttf'', font_size = 60\<rparr>"
      and ?c2.0 = "''#000000''"]
  from t known have "draw_text ((\<lambda>a. {})(draw_text_default := {''Hello''})) []
      (''World'' @ [NL] @ ''Hello'') 100 100
      \<lparr>font_path = ''fonts/Satisfy-Regular.ttf'', font_size = 120\<rparr>
      \<lparr>font_path = ''fonts/Satisfy-Regular.ttf'', font_size = 60\<rparr> ''#000000'' None
     = draw_text ((\<lambda>a. {})(draw_text_default := {''Hello''})) [] ''World'' 100 100
      \<lparr>font_path = ''fonts/Satisfy-Regular.ttf'', font_size = 120\<rparr>
      \<lparr>font_path = ''fonts/Satisfy-Regular.ttf'', font_size = 60\<rparr> ''#000000'' None"
    by blast
  with first world conv show ?thesis by simp
qed

end
